theory Spec2Isabelle
  imports Complex_Main
begin

section \<open>guff: grid planning, frame validation and grid slicing\<close>

text \<open>
  A shallow embedding of the frame pipeline of \<^verbatim>\<open>src/guff.ts\<close> and of its
  older single-provider variant. Integer-valued JavaScript numbers (frame counts, pixel
  sizes, loop counters) are \<open>nat\<close> or \<open>int\<close>; the other numbers (aspect ratios,
  expected cell sizes, distances, the detected row count) are binary64 values of the type
  \<open>number\<close>, and their products and quotients are rounded. \<^verbatim>\<open>process.exit(1)\<close> after a
  \<^verbatim>\<open>console.error\<close> is a value of the type \<open>error\<close>; \<^verbatim>\<open>console.log\<close> warnings
  are collected in a list that the functions return next to their result.
\<close>

subsection \<open>Numbers\<close>

text \<open>
  A JavaScript number: a finite binary64 value, \<^verbatim>\<open>Infinity\<close>, \<^verbatim>\<open>-Infinity\<close> or
  \<^verbatim>\<open>NaN\<close>. A finite value is carried as the real it denotes. The type has no negative
  zero: the numbers of the pipeline are quotients and products of image sizes, grid sizes
  and \<^verbatim>\<open>frameAR\<close>, none of which is negative, so a zero result is always \<^verbatim>\<open>+0\<close>.
\<close>

datatype number = Finite real | PosInf | NegInf | NaN

text \<open>The integer nearest to \<open>y\<close>, a half going to the even neighbour.\<close>

definition roundEven :: "real \<Rightarrow> int" where
  "roundEven y =
     (let f = \<lfloor>y\<rfloor>
      in if y - of_int f < 1 / 2 then f
         else if 1 / 2 < y - of_int f then f + 1
         else if even f then f else f + 1)"

text \<open>
  Rounding of a real to binary64, to nearest with ties to even. The exponent of \<open>x\<close> is
  that of its binade, and \<open>-1022\<close> for the subnormal numbers; the significand has 53 bits,
  so the spacing of the binary64 values around \<open>x\<close> is \<open>quantum x\<close>. A result of
  magnitude \<open>2 ^ 1024\<close> or more overflows to an infinity.
\<close>

definition expo :: "real \<Rightarrow> int" where
  "expo x = max \<lfloor>log 2 \<bar>x\<bar>\<rfloor> (- 1022)"

definition quantum :: "real \<Rightarrow> real" where
  "quantum x = 2 powi (expo x - 52)"

definition nearest64 :: "real \<Rightarrow> real" where
  "nearest64 x = of_int (roundEven (x / quantum x)) * quantum x"

definition round64 :: "real \<Rightarrow> number" where
  "round64 x =
     (if 2 ^ 1024 \<le> \<bar>nearest64 x\<bar> then (if 0 < x then PosInf else NegInf)
      else Finite (nearest64 x))"

text \<open>The infinity with the sign of \<open>s\<close>; \<^verbatim>\<open>NaN\<close> when \<open>s\<close> is zero.\<close>

definition infinityOf :: "real \<Rightarrow> number" where
  "infinityOf s = (if s = 0 then NaN else if 0 < s then PosInf else NegInf)"

text \<open>The operator \<^verbatim>\<open>*\<close> on numbers.\<close>

fun times64 :: "number \<Rightarrow> number \<Rightarrow> number" where
  "times64 (Finite x) (Finite y) = round64 (x * y)"
| "times64 (Finite x) PosInf = infinityOf x"
| "times64 (Finite x) NegInf = infinityOf (- x)"
| "times64 PosInf (Finite y) = infinityOf y"
| "times64 NegInf (Finite y) = infinityOf (- y)"
| "times64 PosInf PosInf = PosInf"
| "times64 PosInf NegInf = NegInf"
| "times64 NegInf PosInf = NegInf"
| "times64 NegInf NegInf = PosInf"
| "times64 NaN y = NaN"
| "times64 x NaN = NaN"

text \<open>The operator \<^verbatim>\<open>/\<close> on numbers; the zero of the type is \<^verbatim>\<open>+0\<close>.\<close>

fun divide64 :: "number \<Rightarrow> number \<Rightarrow> number" where
  "divide64 (Finite x) (Finite y) = (if y = 0 then infinityOf x else round64 (x / y))"
| "divide64 (Finite x) PosInf = Finite 0"
| "divide64 (Finite x) NegInf = Finite 0"
| "divide64 PosInf (Finite y) = (if 0 \<le> y then PosInf else NegInf)"
| "divide64 NegInf (Finite y) = (if 0 \<le> y then NegInf else PosInf)"
| "divide64 PosInf PosInf = NaN"
| "divide64 PosInf NegInf = NaN"
| "divide64 NegInf PosInf = NaN"
| "divide64 NegInf NegInf = NaN"
| "divide64 NaN y = NaN"
| "divide64 x NaN = NaN"

text \<open>The operator \<^verbatim>\<open><\<close> on numbers: false as soon as one side is \<^verbatim>\<open>NaN\<close>.\<close>

fun less64 :: "number \<Rightarrow> number \<Rightarrow> bool" where
  "less64 (Finite x) (Finite y) = (x < y)"
| "less64 (Finite x) PosInf = True"
| "less64 NegInf (Finite y) = True"
| "less64 NegInf PosInf = True"
| "less64 x y = False"

text \<open>\<^verbatim>\<open>Math.abs\<close>.\<close>

fun mathAbs :: "number \<Rightarrow> number" where
  "mathAbs (Finite x) = Finite \<bar>x\<bar>"
| "mathAbs PosInf = PosInf"
| "mathAbs NegInf = PosInf"
| "mathAbs NaN = NaN"

text \<open>
  \<^verbatim>\<open>Math.log\<close>. The language fixes its value at \<^verbatim>\<open>NaN\<close>, at the negative numbers, at
  zero, at 1 and at \<^verbatim>\<open>Infinity\<close>; at every other argument the value is an approximation
  of the natural logarithm that the implementation chooses, the parameter \<open>lg\<close> here.
\<close>

fun mathLog :: "(real \<Rightarrow> real) \<Rightarrow> number \<Rightarrow> number" where
  "mathLog lg (Finite x) =
     (if x < 0 then NaN else if x = 0 then NegInf else if x = 1 then Finite 0
      else Finite (lg x))"
| "mathLog lg PosInf = PosInf"
| "mathLog lg NegInf = NaN"
| "mathLog lg NaN = NaN"

text \<open>
  \<^verbatim>\<open>Math.round\<close>: the nearest integer, a half rounded up. On a number the result is a
  number again; an integer that is a binary64 value whenever the argument is one.
\<close>

definition mathRound :: "real \<Rightarrow> int" where
  "mathRound x = \<lfloor>x + 1 / 2\<rfloor>"

fun mathRound64 :: "number \<Rightarrow> number" where
  "mathRound64 (Finite x) = Finite (of_int (mathRound x))"
| "mathRound64 PosInf = PosInf"
| "mathRound64 NegInf = NegInf"
| "mathRound64 NaN = NaN"

subsection \<open>Options\<close>

text \<open>
  The fields of \<^verbatim>\<open>GenerateOpts\<close> that the frame pipeline reads. The older variant
  keeps the same values in top-level constants of the same names. \<^verbatim>\<open>numFrames\<close>,
  \<^verbatim>\<open>outputW\<close> and \<^verbatim>\<open>outputH\<close> come from \<^verbatim>\<open>parseInt\<close> on digit strings,
  \<^verbatim>\<open>frameAR\<close> is the binary64 quotient of two such integers, so it is a finite
  number that is not negative, \<^verbatim>\<open>Infinity\<close> or \<^verbatim>\<open>NaN\<close>.
\<close>

record GenerateOpts =
  numFrames :: nat
  outputW :: nat
  outputH :: nat
  cols :: nat
  rows :: nat
  frameAR :: number

subsection \<open>Grid layout\<close>

text \<open>The object \<^verbatim>\<open>{ cols, rows }\<close> that \<^verbatim>\<open>gridLayout\<close> returns.\<close>

record grid =
  cols :: nat
  rows :: nat

text \<open>
  The loop \<^verbatim>\<open>for (let r = 2; r * r <= n; r++)\<close> of \<^verbatim>\<open>gridLayout\<close>, with the pair
  \<^verbatim>\<open>bestCols, bestRows\<close> as the accumulator. The division \<^verbatim>\<open>n / r\<close> is only
  taken when \<^verbatim>\<open>n % r === 0\<close>, so it is the exact integer quotient.
\<close>

function gridLoop :: "nat \<Rightarrow> nat \<Rightarrow> grid \<Rightarrow> grid" where
  "gridLoop n r best =
     (if r * r \<le> n
      then gridLoop n (r + 1)
             (if n mod r = 0 then \<lparr>cols = n div r, rows = r\<rparr> else best)
      else best)"
  by pat_completeness auto
termination
proof (relation "measure (\<lambda>(n, r, best). Suc n - r)")
  show "wf (measure (\<lambda>(n, r, best). Suc n - r))" by simp
next
  fix n r :: nat and best :: grid
  assume le: "r * r \<le> n"
  have "r \<le> r * r" by (cases r) simp_all
  from this le have "r \<le> n" by (rule le_trans)
  then show "((n, r + 1, if n mod r = 0 then \<lparr>cols = n div r, rows = r\<rparr> else best),
              (n, r, best)) \<in> measure (\<lambda>(n, r, best). Suc n - r)"
    by simp
qed

definition gridLayout :: "nat \<Rightarrow> grid" where
  "gridLayout n = gridLoop n 2 \<lparr>cols = n, rows = 1\<rparr>"

text \<open>A row count the scan of \<^verbatim>\<open>gridLayout\<close> accepts: at least 2, at most the square
  root of \<open>n\<close>, and dividing \<open>n\<close>.\<close>

definition rowCandidate :: "nat \<Rightarrow> nat \<Rightarrow> bool" where
  "rowCandidate n r \<longleftrightarrow> 2 \<le> r \<and> r * r \<le> n \<and> n mod r = 0"

subsection \<open>Aspect negotiation\<close>

text \<open>
  An entry \<^verbatim>\<open>{ label, value }\<close> of the table \<^verbatim>\<open>ASPECT_RATIOS\<close>; the field
  \<^verbatim>\<open>value\<close> is called \<open>ratio\<close> here.
\<close>

record aspect =
  label :: string
  ratio :: number

definition ASPECT_RATIOS :: "aspect list" where
  "ASPECT_RATIOS =
     [\<lparr>label = ''1:1'', ratio = Finite 1\<rparr>,
      \<lparr>label = ''16:9'', ratio = divide64 (Finite 16) (Finite 9)\<rparr>,
      \<lparr>label = ''9:16'', ratio = divide64 (Finite 9) (Finite 16)\<rparr>,
      \<lparr>label = ''4:3'', ratio = divide64 (Finite 4) (Finite 3)\<rparr>,
      \<lparr>label = ''3:4'', ratio = divide64 (Finite 3) (Finite 4)\<rparr>]"

text \<open>
  The distance \<^verbatim>\<open>Math.abs(Math.log(r.value / target))\<close> of an entry from the target.
\<close>

definition aspectDist :: "(real \<Rightarrow> real) \<Rightarrow> number \<Rightarrow> aspect \<Rightarrow> number" where
  "aspectDist lg target r = mathAbs (mathLog lg (divide64 (ratio r) target))"

text \<open>
  The loop \<^verbatim>\<open>for (const r of ASPECT_RATIOS)\<close> of \<^verbatim>\<open>bestAspectRatio\<close>, with
  \<^verbatim>\<open>best\<close> and \<^verbatim>\<open>bestDist\<close> as accumulators.
\<close>

fun aspectLoop ::
    "(real \<Rightarrow> real) \<Rightarrow> number \<Rightarrow> aspect list \<Rightarrow> aspect \<Rightarrow> number \<Rightarrow> aspect" where
  "aspectLoop lg target [] best bestDist = best"
| "aspectLoop lg target (r # rs) best bestDist =
     (let dist = aspectDist lg target r
      in if less64 dist bestDist
         then aspectLoop lg target rs r dist
         else aspectLoop lg target rs best bestDist)"

text \<open>
  \<^verbatim>\<open>bestAspectRatio(cols, rows, frameAR)\<close>, for the implementation \<open>lg\<close> of
  \<^verbatim>\<open>Math.log\<close>. The product \<^verbatim>\<open>cols * frameAR\<close> is rounded before it is divided
  by \<^verbatim>\<open>rows\<close>; \<^verbatim>\<open>bestDist\<close> starts as \<^verbatim>\<open>Infinity\<close>.
\<close>

definition bestAspectRatio :: "(real \<Rightarrow> real) \<Rightarrow> number \<Rightarrow> number \<Rightarrow> number \<Rightarrow> string" where
  "bestAspectRatio lg c r a =
     (let target = divide64 (times64 c a) r
      in label (aspectLoop lg target ASPECT_RATIOS (ASPECT_RATIOS ! 0) PosInf))"

subsection \<open>Errors and diagnoses\<close>

text \<open>The keys of the table \<^verbatim>\<open>PROVIDERS\<close>.\<close>

datatype provider = gemini | claude

text \<open>
  The fatal exits of the pipeline, one constructor for each \<^verbatim>\<open>console.error\<close>
  followed by \<^verbatim>\<open>process.exit(1)\<close>, and one for an exception of the image library.
\<close>

datatype error =
    CleanGridError nat nat "nat list"
  | ScriptFailed "int option"
  | InvalidJSON
  | ExpectedArray string
  | FrameNotSVG nat
  | SharpError string

fun showNat :: "nat \<Rightarrow> string" where
  "showNat n =
     (if n < 10 then [char_of (48 + n)]
      else showNat (n div 10) @ [char_of (48 + n mod 10)])"

definition showInt :: "int \<Rightarrow> string" where
  "showInt i = (if i < 0 then ''-'' @ showNat (nat (- i)) else showNat (nat i))"

text \<open>\<^verbatim>\<open>Array.prototype.join\<close> on a list of strings.\<close>

fun join :: "string \<Rightarrow> string list \<Rightarrow> string" where
  "join sep [] = []"
| "join sep [x] = x"
| "join sep (x # y # ys) = x @ sep @ join sep (y # ys)"

text \<open>The line each fatal exit writes with \<^verbatim>\<open>console.error\<close>.\<close>

fun diagnosis :: "error \<Rightarrow> string" where
  "diagnosis (CleanGridError n c suggest) =
     ''Error: '' @ showNat n @ '' frames can't form a clean grid (only '' @ showNat c
       @ ''x1). Try: '' @ join '' or '' (map showNat suggest)"
| "diagnosis (ScriptFailed code) =
     ''Error: generated code failed (exit ''
       @ (case code of None \<Rightarrow> ''null'' | Some c \<Rightarrow> showInt c) @ ''):''"
| "diagnosis InvalidJSON = ''Error: generated code did not output valid JSON''"
| "diagnosis (ExpectedArray ty) = ''Error: expected array of SVG strings, got '' @ ty"
| "diagnosis (FrameNotSVG i) = ''Error: frame '' @ showNat i @ '' is not a valid SVG string''"
| "diagnosis (SharpError msg) = msg"

subsection \<open>Grid validation\<close>

text \<open>The test \<^verbatim>\<open>r > 1 || n <= 3\<close> of both suggestion loops.\<close>

definition cleanCount :: "nat \<Rightarrow> bool" where
  "cleanCount n \<longleftrightarrow> rows (gridLayout n) > 1 \<or> n \<le> 3"

text \<open>
  \<^verbatim>\<open>for (let n = numFrames - 1; n >= 2; n--)\<close>: the list is what the loop pushes on
  \<^verbatim>\<open>suggest\<close> before it breaks or ends.
\<close>

fun searchDown :: "nat \<Rightarrow> nat list" where
  "searchDown n =
     (if n \<ge> 2 then (if cleanCount n then [n] else searchDown (n - 1)) else [])"

text \<open>\<^verbatim>\<open>for (let n = numFrames + 1; n <= 16; n++)\<close>.\<close>

function searchUp :: "nat \<Rightarrow> nat list" where
  "searchUp n =
     (if n \<le> 16 then (if cleanCount n then [n] else searchUp (n + 1)) else [])"
  by pat_completeness auto
termination
  by (relation "measure (\<lambda>n. 17 - n)") auto

text \<open>
  The planning step of the main program for \<^verbatim>\<open>numFrames\<close> \<open>n\<close> and
  \<^verbatim>\<open>frameAR\<close> \<open>a\<close>, with \<open>lg\<close> for \<^verbatim>\<open>Math.log\<close>: the grid of \<open>n\<close>, the rejection of
  a single row of more than three columns (for the provider \<^verbatim>\<open>gemini\<close> only; the older
  variant has no other provider and no such test), and the negotiated aspect label.
\<close>

definition planGrid ::
    "(real \<Rightarrow> real) \<Rightarrow> provider \<Rightarrow> nat \<Rightarrow> number \<Rightarrow> error + (grid \<times> string)" where
  "planGrid lg prov n a =
     (let g = gridLayout n
      in if prov = gemini \<and> rows g = 1 \<and> cols g > 3
         then Inl (CleanGridError n (cols g) (searchDown (n - 1) @ searchUp (n + 1)))
         else Inr (g, bestAspectRatio lg (Finite (real (cols g))) (Finite (real (rows g))) a))"

text \<open>
  The alternatives the specification asks for: the nearest count below \<open>n\<close> (not below 2)
  and the nearest count above \<open>n\<close> (not above 16) that pass \<open>cleanCount\<close>.
\<close>

definition nearestBelow :: "nat \<Rightarrow> nat \<Rightarrow> bool" where
  "nearestBelow n lo \<longleftrightarrow>
     2 \<le> lo \<and> lo < n \<and> cleanCount lo \<and> (\<forall>m \<in> {lo <..< n}. \<not> cleanCount m)"

definition nearestAbove :: "nat \<Rightarrow> nat \<Rightarrow> bool" where
  "nearestAbove n hi \<longleftrightarrow>
     n < hi \<and> hi \<le> 16 \<and> cleanCount hi \<and> (\<forall>m \<in> {n <..< hi}. \<not> cleanCount m)"

subsection \<open>Strings and JSON values\<close>

text \<open>
  A JavaScript string is a sequence of UTF-16 code units, here natural numbers. ASCII
  literals of the program are written with \<open>js\<close>.
\<close>

type_synonym jsString = "nat list"

definition js :: "string \<Rightarrow> jsString" where
  "js s = map of_char s"

text \<open>
  The code units \<^verbatim>\<open>String.prototype.trim\<close> removes: the ECMAScript white space and
  line terminator code points (all of them are single code units).
\<close>

definition isWhiteSpace :: "nat \<Rightarrow> bool" where
  "isWhiteSpace c \<longleftrightarrow>
     c \<in> {9, 10, 11, 12, 13, 32, 160, 5760, 8232, 8233, 8239, 8287, 12288, 65279}
     \<or> (8192 \<le> c \<and> c \<le> 8202)"

definition trim :: "jsString \<Rightarrow> jsString" where
  "trim s = rev (dropWhile isWhiteSpace (rev (dropWhile isWhiteSpace s)))"

definition startsWith :: "jsString \<Rightarrow> jsString \<Rightarrow> bool" where
  "startsWith s p \<longleftrightarrow> take (length p) s = p"

text \<open>What \<^verbatim>\<open>JSON.parse\<close> returns.\<close>

datatype json =
    JNull
  | JBool bool
  | JNumber real
  | JString jsString
  | JArray "json list"
  | JObject "(jsString \<times> json) list"

fun typeof :: "json \<Rightarrow> string" where
  "typeof JNull = ''object''"
| "typeof (JBool b) = ''boolean''"
| "typeof (JNumber x) = ''number''"
| "typeof (JString s) = ''string''"
| "typeof (JArray vs) = ''object''"
| "typeof (JObject kvs) = ''object''"

subsection \<open>Running the generated script\<close>

text \<open>
  What \<^verbatim>\<open>executeFrameScript\<close> sees of the child process: its exit code (\<open>None\<close>
  when the process was killed, as on the 30 second timeout, so that the code is not 0) and
  the result of \<^verbatim>\<open>JSON.parse\<close> on its trimmed standard output (\<open>None\<close> when
  \<^verbatim>\<open>JSON.parse\<close> throws).
\<close>

record scriptRun =
  exitCode :: "int option"
  parsed :: "json option"

text \<open>The lines written with \<^verbatim>\<open>console.log\<close> that start with \<^verbatim>\<open>Warning:\<close>.\<close>

datatype warning =
    FrameCountWarning nat nat
  | RowsWarning number nat

text \<open>
  A number in a template string, for the numbers that are not finite and for the integers
  of magnitude below \<open>10 ^ 21\<close>, which are written with all their digits. The other
  numbers (printed with a fraction or an exponent) are not modelled; no claim reads them.
\<close>

fun showNumber :: "number \<Rightarrow> string" where
  "showNumber (Finite x) = showInt \<lfloor>x\<rfloor>"
| "showNumber PosInf = ''Infinity''"
| "showNumber NegInf = ''-Infinity''"
| "showNumber NaN = ''NaN''"

fun warningText :: "warning \<Rightarrow> string" where
  "warningText (FrameCountWarning got expected) =
     ''Warning: got '' @ showNat got @ '' frames (expected '' @ showNat expected @ '')''"
| "warningText (RowsWarning detected expected) =
     ''Warning: detected '' @ showNumber detected @ '' rows (expected '' @ showNat expected
       @ ''), adjusting''"

text \<open>
  The test \<^verbatim>\<open>typeof svgs[i] !== "string" || !svgs[i]!.trim().startsWith("<svg")\<close>.
\<close>

fun invalidFrame :: "json \<Rightarrow> bool" where
  "invalidFrame (JString s) = (\<not> startsWith (trim s) (js ''<svg''))"
| "invalidFrame v = True"

text \<open>
  The loop \<^verbatim>\<open>for (let i = 0; i < svgs.length; i++)\<close> from index \<open>i\<close> on the rest of
  the array: the index at which it exits, if it does.
\<close>

fun checkFrames :: "nat \<Rightarrow> json list \<Rightarrow> nat option" where
  "checkFrames i [] = None"
| "checkFrames i (v # vs) = (if invalidFrame v then Some i else checkFrames (i + 1) vs)"

text \<open>The array as \<^verbatim>\<open>string[]\<close>, once every element is known to be a string.\<close>

fun stringOf :: "json \<Rightarrow> jsString" where
  "stringOf (JString s) = s"
| "stringOf v = []"

definition executeFrameScript ::
    "scriptRun \<Rightarrow> GenerateOpts \<Rightarrow> warning list \<times> (error + jsString list)" where
  "executeFrameScript run opts =
     (if exitCode run \<noteq> Some 0 then ([], Inl (ScriptFailed (exitCode run)))
      else case parsed run of
        None \<Rightarrow> ([], Inl InvalidJSON)
      | Some v \<Rightarrow>
          (case v of
            JArray svgs \<Rightarrow>
              if length svgs = 0 then ([], Inl (ExpectedArray (typeof v)))
              else
                let warns = (if length svgs \<noteq> numFrames opts
                           then [FrameCountWarning (length svgs) (numFrames opts)] else [])
                in (case checkFrames 0 svgs of
                      Some i \<Rightarrow> (warns, Inl (FrameNotSVG i))
                    | None \<Rightarrow> (warns, Inr (map stringOf svgs)))
          | _ \<Rightarrow> ([], Inl (ExpectedArray (typeof v)))))"

subsection \<open>Images\<close>

text \<open>
  The image library is outside the repository. A \<^verbatim>\<open>Buffer\<close> holding an image is
  modelled by its pixel size and by the operations that produced it; the pixels themselves
  are not modelled.
\<close>

datatype fit = contain | cover

text \<open>A colour \<^verbatim>\<open>{ r, g, b, alpha }\<close>.\<close>

datatype colour = RGBA nat nat nat real

text \<open>
  Where the pixels of an image come from: an SVG document, a region
  \<open>left top width height\<close> of the provider image, a trimmed image, an image composited
  at \<open>left top\<close> on a new canvas of a given width, height and background, a resized image.
\<close>

datatype source =
    SvgDoc jsString
  | SheetRegion int int int int
  | Trim source
  | Canvas nat nat colour source int int
  | Resize fit source

record buffer =
  bufWidth :: nat
  bufHeight :: nat
  origin :: source

text \<open>The objects \<^verbatim>\<open>{ data, width, height }\<close> of the array \<^verbatim>\<open>trimmed\<close>.\<close>

record trimmedCell =
  data :: buffer
  width :: nat
  height :: nat

text \<open>The argument \<^verbatim>\<open>{ left, top, width, height }\<close> of \<^verbatim>\<open>extract\<close>.\<close>

record region =
  left :: int
  top :: int
  width :: int
  height :: int

text \<open>
  \<^verbatim>\<open>extract\<close> on an image of \<open>imgW\<close> by \<open>imgH\<close> pixels: the library throws unless
  the region has a positive size and lies inside the image.
\<close>

definition sharpExtract :: "nat \<Rightarrow> nat \<Rightarrow> region \<Rightarrow> error + buffer" where
  "sharpExtract imgW imgH rg =
     (if 0 \<le> left rg \<and> 0 \<le> top rg \<and> 0 < width rg \<and> 0 < height rg
         \<and> left rg + width rg \<le> int imgW \<and> top rg + height rg \<le> int imgH
      then Inr \<lparr>bufWidth = nat (width rg), bufHeight = nat (height rg),
                origin = SheetRegion (left rg) (top rg) (width rg) (height rg)\<rparr>
      else Inl (SharpError ''extract_area: bad extract area''))"

text \<open>The pixels of a region of the provider image, as a \<open>source\<close>.\<close>

definition regionSource :: "region \<Rightarrow> source" where
  "regionSource rg = SheetRegion (left rg) (top rg) (width rg) (height rg)"

text \<open>The buffer \<^verbatim>\<open>extract\<close> gives for a region inside the image.\<close>

definition extracted :: "region \<Rightarrow> buffer" where
  "extracted rg =
     \<lparr>bufWidth = nat (width rg), bufHeight = nat (height rg), origin = regionSource rg\<rparr>"

text \<open>
  \<^verbatim>\<open>resize(w, h, { fit })\<close>: the library throws unless both sizes are positive
  integers; the result has exactly that size for the fits \<^verbatim>\<open>contain\<close> and
  \<^verbatim>\<open>cover\<close>.
\<close>

definition sharpResize :: "nat \<Rightarrow> nat \<Rightarrow> fit \<Rightarrow> source \<Rightarrow> error + buffer" where
  "sharpResize w h f src =
     (if 0 < w \<and> 0 < h
      then Inr \<lparr>bufWidth = w, bufHeight = h, origin = Resize f src\<rparr>
      else Inl (SharpError ''Expected positive integer for width or height''))"

subsection \<open>The procedural path\<close>

text \<open>
  One SVG string to one PNG frame. Whether the library can load the string as an image
  is the parameter \<open>renders\<close>.
\<close>

definition svgToPng :: "(jsString \<Rightarrow> bool) \<Rightarrow> GenerateOpts \<Rightarrow> jsString \<Rightarrow> error + buffer" where
  "svgToPng renders opts svg =
     (if renders svg
      then sharpResize (outputW opts) (outputH opts) contain (SvgDoc svg)
      else Inl (SharpError ''Input buffer contains unsupported image format''))"

text \<open>The loop \<^verbatim>\<open>for (const svg of svgs)\<close> of \<^verbatim>\<open>generateClaude\<close>.\<close>

fun svgFrames ::
    "(jsString \<Rightarrow> bool) \<Rightarrow> GenerateOpts \<Rightarrow> jsString list \<Rightarrow> buffer list \<Rightarrow> error + buffer list" where
  "svgFrames renders opts [] frames = Inr frames"
| "svgFrames renders opts (svg # svgs) frames =
     (case svgToPng renders opts svg of
        Inl e \<Rightarrow> Inl e
      | Inr png \<Rightarrow> svgFrames renders opts svgs (frames @ [png]))"

text \<open>
  \<^verbatim>\<open>generateClaude\<close> from the call of \<^verbatim>\<open>executeFrameScript\<close> on; the request to
  the provider and the extraction of the script from its answer come before and are not
  modelled.
\<close>

definition generateClaude ::
    "(jsString \<Rightarrow> bool) \<Rightarrow> scriptRun \<Rightarrow> GenerateOpts \<Rightarrow> warning list \<times> (error + buffer list)" where
  "generateClaude renders run opts =
     (case executeFrameScript run opts of
        (warns, Inl e) \<Rightarrow> (warns, Inl e)
      | (warns, Inr svgs) \<Rightarrow> (warns, svgFrames renders opts svgs []))"

subsection \<open>The grid path\<close>

text \<open>
  The constants \<^verbatim>\<open>generateGemini\<close> computes before it extracts the cells.
  \<open>detectedRows\<close> is the number \<^verbatim>\<open>Math.round\<close> returns. The other fields are
  integers whenever a cell is extracted and are kept as such: \<open>actualRows\<close> is the bound
  of the row loop, \<open>frameW\<close> and \<open>frameH\<close> are floors of quotients of integers, the
  insets are rounded from them.
\<close>

record geometry =
  detectedRows :: number
  actualRows :: int
  frameW :: int
  frameH :: int
  insetX :: int
  insetY :: int

text \<open>
  Drift detection and cell geometry for a provider image of \<open>imgW\<close> by \<open>imgH\<close> pixels.
  The three quotients that lead to \<^verbatim>\<open>detectedRows\<close> are binary64 quotients, each
  rounded. \<^verbatim>\<open>actualRows\<close> is \<^verbatim>\<open>rows\<close> or \<^verbatim>\<open>detectedRows\<close>; when that is
  \<^verbatim>\<open>NaN\<close> the test \<^verbatim>\<open>row < actualRows\<close> is false from the start, as with the
  bound 0 that stands for it here, and when it is \<^verbatim>\<open>Infinity\<close> the test is always
  true, which \<open>extractLoops\<close> treats apart. \<^verbatim>\<open>Math.floor(imgH / actualRows)\<close> is 0 for
  \<^verbatim>\<open>Infinity\<close> rows, as here; for 0 rows or \<^verbatim>\<open>NaN\<close> rows it is not a finite number
  and is 0 here: the row loop has no pass then and nothing reads \<^verbatim>\<open>frameH\<close> and
  \<^verbatim>\<open>insetY\<close> (lemma \<open>no_rows_no_cell\<close>). In the same way \<^verbatim>\<open>frameW\<close> is not a
  finite number when there is no column, and no cell is extracted then. The floors are
  those of the exact quotients, which are the floors of the binary64 quotients for
  integers below \<open>2 ^ 53\<close> (lemma \<open>floor_quotient_exact\<close>). The insets are rounded from
  the exact product with 0.03; the binary64 product rounds to the same integer for every
  cell size up to 3000000 pixels (by enumeration, not proved here).
\<close>

definition sliceGeometry :: "nat \<Rightarrow> nat \<Rightarrow> GenerateOpts \<Rightarrow> warning list \<times> geometry" where
  "sliceGeometry imgW imgH opts =
     (let expectedFrameW = divide64 (Finite (real imgW)) (Finite (real (GenerateOpts.cols opts)));
          expectedFrameH = divide64 expectedFrameW (frameAR opts);
          detected = mathRound64 (divide64 (Finite (real imgH)) expectedFrameH);
          adjust = (detected \<noteq> Finite (real (GenerateOpts.rows opts)));
          actual = (if adjust then (case detected of Finite d \<Rightarrow> \<lfloor>d\<rfloor> | _ \<Rightarrow> 0)
                    else int (GenerateOpts.rows opts));
          fW = \<lfloor>real imgW / real (GenerateOpts.cols opts)\<rfloor>;
          fH = (if actual = 0 then 0 else \<lfloor>real imgH / real_of_int actual\<rfloor>)
      in ((if adjust then [RowsWarning detected (GenerateOpts.rows opts)] else []),
          \<lparr>detectedRows = detected, actualRows = actual, frameW = fW, frameH = fH,
           insetX = max 1 (mathRound (real_of_int fW * 0.03)),
           insetY = max 1 (mathRound (real_of_int fH * 0.03))\<rparr>))"

text \<open>The region extracted for the cell in row \<open>row\<close> and column \<open>col\<close>.\<close>

definition cellRegion :: "geometry \<Rightarrow> nat \<Rightarrow> nat \<Rightarrow> region" where
  "cellRegion g row col =
     \<lparr>left = int col * frameW g + insetX g,
      top = int row * frameH g + insetY g,
      width = frameW g - insetX g * 2,
      height = frameH g - insetY g * 2\<rparr>"

text \<open>
  The inner loop \<^verbatim>\<open>for (let col = 0; col < cols && frames.length < numFrames; col++)\<close>;
  \<open>cell\<close> is the body that produces one frame.
\<close>

function colLoop ::
    "(nat \<Rightarrow> nat \<Rightarrow> error + buffer) \<Rightarrow> GenerateOpts \<Rightarrow> nat \<Rightarrow> nat \<Rightarrow> buffer list
       \<Rightarrow> error + buffer list" where
  "colLoop cell opts row col frames =
     (if col < GenerateOpts.cols opts \<and> length frames < numFrames opts
      then (case cell row col of
              Inl e \<Rightarrow> Inl e
            | Inr frame \<Rightarrow> colLoop cell opts row (col + 1) (frames @ [frame]))
      else Inr frames)"
  by pat_completeness auto
termination
  by (relation "measure (\<lambda>(cell, opts, row, col, frames). GenerateOpts.cols opts - col)") auto

text \<open>
  The outer loop
  \<^verbatim>\<open>for (let row = 0; row < actualRows && frames.length < numFrames; row++)\<close>.
\<close>

function rowLoop ::
    "(nat \<Rightarrow> nat \<Rightarrow> error + buffer) \<Rightarrow> GenerateOpts \<Rightarrow> int \<Rightarrow> nat \<Rightarrow> buffer list
       \<Rightarrow> error + buffer list" where
  "rowLoop cell opts rowCount row frames =
     (if int row < rowCount \<and> length frames < numFrames opts
      then (case colLoop cell opts row 0 frames of
              Inl e \<Rightarrow> Inl e
            | Inr frames' \<Rightarrow> rowLoop cell opts rowCount (row + 1) frames')
      else Inr frames)"
  by pat_completeness auto
termination
  by (relation "measure (\<lambda>(cell, opts, rowCount, row, frames). nat (rowCount - int row))") auto

text \<open>The body of the loops in \<^verbatim>\<open>generateGemini\<close>: extract, then resize to the output size.\<close>

definition geminiCell :: "nat \<Rightarrow> nat \<Rightarrow> geometry \<Rightarrow> GenerateOpts \<Rightarrow> nat \<Rightarrow> nat \<Rightarrow> error + buffer" where
  "geminiCell imgW imgH g opts row col =
     (case sharpExtract imgW imgH (cellRegion g row col) of
        Inl e \<Rightarrow> Inl e
      | Inr b \<Rightarrow> sharpResize (outputW opts) (outputH opts) cover (origin b))"

text \<open>
  The two nested loops for the geometry \<open>g\<close>. With \<^verbatim>\<open>Infinity\<close> rows the test
  \<^verbatim>\<open>row < actualRows\<close> is always true, and the first pass of the row loop is the whole
  run: either no frame is requested and the loops are not entered, or there is a column
  (lemma \<open>infinite_rows_cols\<close>) and the first \<^verbatim>\<open>extract\<close> throws, the cell height being
  \<open>0 - 2 * 1\<close> (lemma \<open>infinite_rows_first_pass\<close>).
\<close>

definition extractLoops ::
    "(nat \<Rightarrow> nat \<Rightarrow> error + buffer) \<Rightarrow> GenerateOpts \<Rightarrow> geometry \<Rightarrow> error + buffer list" where
  "extractLoops cell opts g =
     (if detectedRows g = PosInf then colLoop cell opts 0 0 []
      else rowLoop cell opts (actualRows g) 0 [])"

text \<open>
  \<^verbatim>\<open>generateGemini\<close> from the metadata of the provider image on: the warnings and the
  frames.
\<close>

definition sliceFrames :: "nat \<Rightarrow> nat \<Rightarrow> GenerateOpts \<Rightarrow> warning list \<times> (error + buffer list)" where
  "sliceFrames imgW imgH opts =
     (case sliceGeometry imgW imgH opts of
        (warns, g) \<Rightarrow> (warns, extractLoops (geminiCell imgW imgH g opts) opts g))"

subsection \<open>The older variant: trimming and re-centring\<close>

text \<open>The body of the extraction loops of the older variant: extract only.\<close>

definition rawCell :: "nat \<Rightarrow> nat \<Rightarrow> geometry \<Rightarrow> nat \<Rightarrow> nat \<Rightarrow> error + buffer" where
  "rawCell imgW imgH g row col = sharpExtract imgW imgH (cellRegion g row col)"

text \<open>
  \<^verbatim>\<open>trim({ threshold: 20 })\<close>: the size that is left depends on the pixels and is the
  parameter \<open>trimSize\<close>.
\<close>

definition sharpTrim :: "(buffer \<Rightarrow> nat \<times> nat) \<Rightarrow> buffer \<Rightarrow> buffer" where
  "sharpTrim trimSize raw =
     \<lparr>bufWidth = fst (trimSize raw), bufHeight = snd (trimSize raw), origin = Trim (origin raw)\<rparr>"

text \<open>The variables \<^verbatim>\<open>trimmed\<close>, \<^verbatim>\<open>maxTrimW\<close> and \<^verbatim>\<open>maxTrimH\<close>.\<close>

record trimState =
  trimmed :: "trimmedCell list"
  maxTrimW :: nat
  maxTrimH :: nat

text \<open>The loop \<^verbatim>\<open>for (const raw of rawFrames)\<close>.\<close>

fun trimLoop :: "(buffer \<Rightarrow> nat \<times> nat) \<Rightarrow> buffer list \<Rightarrow> trimState \<Rightarrow> trimState" where
  "trimLoop trimSize [] st = st"
| "trimLoop trimSize (raw # raws) st =
     (let d = sharpTrim trimSize raw
      in trimLoop trimSize raws
           \<lparr>trimmed = trimmed st
              @ [\<lparr>data = d, trimmedCell.width = bufWidth d, trimmedCell.height = bufHeight d\<rparr>],
            maxTrimW = max (maxTrimW st) (bufWidth d),
            maxTrimH = max (maxTrimH st) (bufHeight d)\<rparr>)"

text \<open>
  The image \<^verbatim>\<open>composited\<close>: a new canvas of \<open>maxW\<close> by \<open>maxH\<close> pixels with the
  background \<^verbatim>\<open>{ r: 255, g: 255, b: 255, alpha: 1 }\<close>, and the trimmed cell placed on it
  at the rounded half of the free space.
\<close>

definition composited :: "nat \<Rightarrow> nat \<Rightarrow> trimmedCell \<Rightarrow> buffer" where
  "composited maxW maxH t =
     \<lparr>bufWidth = maxW, bufHeight = maxH,
      origin = Canvas maxW maxH (RGBA 255 255 255 1) (origin (data t))
                 (mathRound ((real maxW - real (trimmedCell.width t)) / 2))
                 (mathRound ((real maxH - real (trimmedCell.height t)) / 2))\<rparr>"

text \<open>The loop \<^verbatim>\<open>for (const t of trimmed)\<close>: composite, then resize.\<close>

fun centerLoop ::
    "GenerateOpts \<Rightarrow> nat \<Rightarrow> nat \<Rightarrow> trimmedCell list \<Rightarrow> buffer list \<Rightarrow> error + buffer list" where
  "centerLoop opts maxW maxH [] frames = Inr frames"
| "centerLoop opts maxW maxH (t # ts) frames =
     (case sharpResize (outputW opts) (outputH opts) contain (origin (composited maxW maxH t)) of
        Inl e \<Rightarrow> Inl e
      | Inr frame \<Rightarrow> centerLoop opts maxW maxH ts (frames @ [frame]))"

text \<open>The older variant from the metadata of the provider image on.\<close>

definition legacyFrames ::
    "(buffer \<Rightarrow> nat \<times> nat) \<Rightarrow> nat \<Rightarrow> nat \<Rightarrow> GenerateOpts \<Rightarrow> warning list \<times> (error + buffer list)" where
  "legacyFrames trimSize imgW imgH opts =
     (case sliceGeometry imgW imgH opts of
        (warns, g) \<Rightarrow>
          (warns,
           case extractLoops (rawCell imgW imgH g) opts g of
             Inl e \<Rightarrow> Inl e
           | Inr rawFrames \<Rightarrow>
               (let st = trimLoop trimSize rawFrames \<lparr>trimmed = [], maxTrimW = 0, maxTrimH = 0\<rparr>
                in centerLoop opts (maxTrimW st) (maxTrimH st) (trimmed st) [])))"

subsection \<open>Example data\<close>

text \<open>A complete SVG document, as a script following the system prompt would print it.\<close>

definition sampleSvg :: jsString where
  "sampleSvg =
     js ''<svg xmlns='http://www.w3.org/2000/svg' viewBox='0 0 128 128'><circle cx='64' cy='64' r='32'/></svg>''"


text \<open>
  An implementation of \<^verbatim>\<open>Math.log\<close> for examples: the natural logarithm, correctly
  rounded.
\<close>

definition lnRounded :: "real \<Rightarrow> real" where
  "lnRounded x = (case round64 (ln x) of Finite y \<Rightarrow> y | _ \<Rightarrow> 0)"

section \<open>Theorems\<close>

subsection \<open>Rounding to binary64\<close>

lemma roundEven_err: "\<bar>of_int (roundEven y) - y\<bar> \<le> 1 / 2"
  unfolding roundEven_def Let_def by (auto; linarith)

lemma roundEven_of_int: "roundEven (of_int n) = n"
  unfolding roundEven_def Let_def by simp

lemma pow2_le_imp_le:
  fixes a b :: int
  assumes "(2::real) powi a \<le> 2 powi b"
  shows "a \<le> b"
proof (rule ccontr)
  assume "\<not> a \<le> b"
  then have "b < a" by simp
  then have "(2::real) powi b < 2 powi a" by (rule power_int_strict_increasing) simp
  with assms show False by simp
qed

lemma pow2_less_imp_less:
  fixes a b :: int
  assumes "(2::real) powi a < 2 powi b"
  shows "a < b"
proof (rule ccontr)
  assume "\<not> a < b"
  then have "b \<le> a" by simp
  then have "(2::real) powi b \<le> 2 powi a" by (rule power_int_increasing) simp
  with assms show False by simp
qed

lemma floor_log2:
  assumes "x \<noteq> 0"
  shows "2 powi \<lfloor>log 2 \<bar>x\<bar>\<rfloor> \<le> \<bar>x\<bar>" and "\<bar>x\<bar> < 2 powi (\<lfloor>log 2 \<bar>x\<bar>\<rfloor> + 1)"
proof -
  have pos: "0 < \<bar>x\<bar>" using assms by simp
  have "2 powr (real_of_int \<lfloor>log 2 \<bar>x\<bar>\<rfloor>) \<le> \<bar>x\<bar>
        \<and> \<bar>x\<bar> < 2 powr (real_of_int \<lfloor>log 2 \<bar>x\<bar>\<rfloor> + 1)"
    using floor_log_eq_powr_iff [OF pos, of 2 "\<lfloor>log 2 \<bar>x\<bar>\<rfloor>"] by simp
  moreover have "(2::real) powr (real_of_int k) = 2 powi k" for k
    by (rule powr_real_of_int') simp_all
  moreover have "real_of_int \<lfloor>log 2 \<bar>x\<bar>\<rfloor> + 1 = real_of_int (\<lfloor>log 2 \<bar>x\<bar>\<rfloor> + 1)" by simp
  ultimately show "2 powi \<lfloor>log 2 \<bar>x\<bar>\<rfloor> \<le> \<bar>x\<bar>" and "\<bar>x\<bar> < 2 powi (\<lfloor>log 2 \<bar>x\<bar>\<rfloor> + 1)"
    by metis+
qed

lemma floor_log2_eqI:
  assumes "2 powi e \<le> \<bar>x\<bar>" and "\<bar>x\<bar> < 2 powi (e + 1)"
  shows "\<lfloor>log 2 \<bar>x\<bar>\<rfloor> = e"
proof -
  have "0 < (2::real) powi e" by simp
  from this assms(1) have "0 < \<bar>x\<bar>" by (rule less_le_trans)
  then have x0: "x \<noteq> 0" by simp
  note b = floor_log2 [OF x0]
  from b(1) assms(2) have "(2::real) powi \<lfloor>log 2 \<bar>x\<bar>\<rfloor> < 2 powi (e + 1)" by simp
  then have "\<lfloor>log 2 \<bar>x\<bar>\<rfloor> < e + 1" by (rule pow2_less_imp_less)
  moreover from b(2) assms(1) have "(2::real) powi e < 2 powi (\<lfloor>log 2 \<bar>x\<bar>\<rfloor> + 1)" by simp
  then have "e < \<lfloor>log 2 \<bar>x\<bar>\<rfloor> + 1" by (rule pow2_less_imp_less)
  ultimately show ?thesis by simp
qed

lemma expo_ge: "- 1022 \<le> expo x"
  by (simp add: expo_def)

lemma quantum_pos: "0 < quantum x"
  by (simp add: quantum_def)

lemma abs_less_expo:
  assumes "x \<noteq> 0"
  shows "\<bar>x\<bar> < 2 powi (expo x + 1)"
proof -
  have "\<lfloor>log 2 \<bar>x\<bar>\<rfloor> + 1 \<le> expo x + 1" by (simp add: expo_def)
  then have "(2::real) powi (\<lfloor>log 2 \<bar>x\<bar>\<rfloor> + 1) \<le> 2 powi (expo x + 1)"
    by (rule power_int_increasing) simp
  with floor_log2(2) [OF assms] show ?thesis by simp
qed

lemma expo_eqI:
  assumes "2 powi e \<le> \<bar>x\<bar>" and "\<bar>x\<bar> < 2 powi (e + 1)" and "- 1022 \<le> e"
  shows "expo x = e"
  using floor_log2_eqI [OF assms(1,2)] assms(3) by (simp add: expo_def)

lemma expo_le:
  assumes "x \<noteq> 0" and "\<bar>x\<bar> < 2 powi (e + 1)" and "- 1022 \<le> e"
  shows "expo x \<le> e"
proof -
  from floor_log2(1) [OF assms(1)] assms(2)
  have "(2::real) powi \<lfloor>log 2 \<bar>x\<bar>\<rfloor> < 2 powi (e + 1)" by simp
  then have "\<lfloor>log 2 \<bar>x\<bar>\<rfloor> < e + 1" by (rule pow2_less_imp_less)
  with assms(3) show ?thesis by (simp add: expo_def)
qed

lemma expo_normal:
  assumes "2 powi (- 1022) \<le> \<bar>x\<bar>"
  shows "2 powi (expo x) \<le> \<bar>x\<bar>"
proof -
  have "0 < (2::real) powi (- 1022)" by simp
  from this assms have "0 < \<bar>x\<bar>" by (rule less_le_trans)
  then have x0: "x \<noteq> 0" by simp
  from assms floor_log2(2) [OF x0]
  have "(2::real) powi (- 1022) < 2 powi (\<lfloor>log 2 \<bar>x\<bar>\<rfloor> + 1)" by simp
  then have "- 1022 < \<lfloor>log 2 \<bar>x\<bar>\<rfloor> + 1" by (rule pow2_less_imp_less)
  then have "expo x = \<lfloor>log 2 \<bar>x\<bar>\<rfloor>" by (simp add: expo_def)
  with floor_log2(1) [OF x0] show ?thesis by simp
qed

lemma nearest64_err: "\<bar>nearest64 x - x\<bar> \<le> quantum x / 2"
proof -
  let ?q = "quantum x"
  let ?m = "real_of_int (roundEven (x / ?q))"
  have q: "0 < ?q" by (rule quantum_pos)
  have "\<bar>?m - x / ?q\<bar> \<le> 1 / 2" by (rule roundEven_err)
  then have "\<bar>?m - x / ?q\<bar> * ?q \<le> 1 / 2 * ?q"
    using q by (intro mult_right_mono) simp_all
  moreover have "\<bar>?m - x / ?q\<bar> * ?q = \<bar>?m * ?q - x\<bar>"
  proof -
    have "\<bar>?m - x / ?q\<bar> * ?q = \<bar>(?m - x / ?q) * ?q\<bar>" using q by (simp add: abs_mult)
    also have "(?m - x / ?q) * ?q = ?m * ?q - x" using q by (simp add: field_simps)
    finally show ?thesis .
  qed
  ultimately show ?thesis by (simp add: nearest64_def)
qed

lemma round64_Finite: "\<bar>nearest64 x\<bar> < 2 ^ 1024 \<Longrightarrow> round64 x = Finite (nearest64 x)"
  by (simp add: round64_def)


lemma nearest64_zero: "nearest64 0 = 0"
  by (simp add: nearest64_def roundEven_def)

lemma quantum_le:
  assumes "x \<noteq> 0" and "\<bar>x\<bar> < 2 powi (e + 1)" and "- 1022 \<le> e"
  shows "quantum x \<le> 2 powi (e - 52)"
proof -
  have "expo x - 52 \<le> e - 52" using expo_le [OF assms] by simp
  then show ?thesis unfolding quantum_def by (rule power_int_increasing) simp
qed

lemma half_pow2: "(2::real) powi (e - 52) / 2 = 2 powi (e - 53)"
proof -
  have "(2::real) powi (e - 52) = 2 powi (e - 53 + 1)" by simp
  also have "\<dots> = 2 powi (e - 53) * 2" by (subst power_int_add) simp_all
  finally show ?thesis by simp
qed

lemma round64_bounded:
  assumes "\<bar>x\<bar> < 2 powi (e + 1)" and "- 1022 \<le> e" and "e \<le> 1022"
  shows "\<exists>y. round64 x = Finite y \<and> \<bar>y - x\<bar> \<le> 2 powi (e - 53)"
proof (cases "x = 0")
  case True
  then show ?thesis by (simp add: round64_def nearest64_zero)
next
  case False
  have "\<bar>nearest64 x - x\<bar> \<le> quantum x / 2" by (rule nearest64_err)
  also have "\<dots> \<le> 2 powi (e - 52) / 2"
    using quantum_le [OF False assms(1,2)] by simp
  also have "\<dots> = 2 powi (e - 53)" by (rule half_pow2)
  finally have err: "\<bar>nearest64 x - x\<bar> \<le> 2 powi (e - 53)" .
  have "(2::real) powi (e - 53) \<le> 2 powi (e + 1)" by (rule power_int_increasing) simp_all
  with err assms(1) have "\<bar>nearest64 x\<bar> < 2 powi (e + 1) + 2 powi (e + 1)" by linarith
  also have "\<dots> = 2 powi (e + 1 + 1)" by (subst (3) power_int_add) simp_all
  also have "\<dots> \<le> 2 powi 1024" using assms(3) by (intro power_int_increasing) simp_all
  finally have "\<bar>nearest64 x\<bar> < 2 ^ 1024" by simp
  then have "round64 x = Finite (nearest64 x)" by (rule round64_Finite)
  with err show ?thesis by blast
qed

lemma round64_normal:
  assumes "2 powi (- 1022) \<le> \<bar>x\<bar>" and "\<bar>x\<bar> < 2 ^ 1023"
  shows "\<exists>y. round64 x = Finite y \<and> \<bar>y - x\<bar> \<le> \<bar>x\<bar> / 2 ^ 53"
proof -
  have "0 < (2::real) powi (- 1022)" by simp
  from this assms(1) have "0 < \<bar>x\<bar>" by (rule less_le_trans)
  then have x0: "x \<noteq> 0" by simp
  let ?e = "expo x"
  have lo: "2 powi ?e \<le> \<bar>x\<bar>" by (rule expo_normal [OF assms(1)])
  have "(2::real) powi ?e < 2 powi 1023" using lo assms(2) by simp
  then have "?e < 1023" by (rule pow2_less_imp_less)
  then have e: "?e \<le> 1022" by simp
  from round64_bounded [OF abs_less_expo [OF x0] expo_ge e]
  obtain y where y: "round64 x = Finite y" "\<bar>y - x\<bar> \<le> 2 powi (?e - 53)" by blast
  have "(2::real) powi (?e - 53) = 2 powi ?e * 2 powi (- 53)"
    by (subst power_int_add [symmetric]) simp_all
  also have "\<dots> = 2 powi ?e / 2 ^ 53" by (simp add: power_int_minus field_simps)
  also have "\<dots> \<le> \<bar>x\<bar> / 2 ^ 53" using lo by (simp add: divide_right_mono)
  finally have "(2::real) powi (?e - 53) \<le> \<bar>x\<bar> / 2 ^ 53" .
  with y show ?thesis by force
qed

lemma nearest64_exact:
  assumes "x = of_int m * 2 powi j" and "\<bar>m\<bar> < 2 ^ 53" and "- 1074 \<le> j"
  shows "nearest64 x = x"
proof (cases "x = 0")
  case True
  then show ?thesis by (simp add: nearest64_zero)
next
  case False
  have "\<bar>x\<bar> = \<bar>real_of_int m\<bar> * 2 powi j" unfolding assms(1) by (simp add: abs_mult)
  also have "\<dots> < 2 ^ 53 * 2 powi j"
  proof (rule mult_strict_right_mono)
    have "real_of_int \<bar>m\<bar> < real_of_int (2 ^ 53)" using assms(2) by (simp only: of_int_less_iff)
    then show "\<bar>real_of_int m\<bar> < 2 ^ 53" by simp
    show "0 < (2::real) powi j" by simp
  qed
  also have "\<dots> = 2 powi (j + 52 + 1)"
  proof -
    have "j + 52 + 1 = j + 53" by simp
    then have "(2::real) powi (j + 52 + 1) = 2 powi (j + 53)" by (rule arg_cong)
    also have "\<dots> = 2 powi j * 2 powi 53" by (rule power_int_add) simp
    also have "\<dots> = 2 ^ 53 * 2 powi j" by simp
    finally show ?thesis by (rule sym)
  qed
  finally have "\<bar>x\<bar> < 2 powi (j + 52 + 1)" .
  then have "expo x \<le> j + 52" using assms(3) by (intro expo_le [OF False]) simp_all
  then have d: "0 \<le> j - (expo x - 52)" by simp
  have "(2::real) powi j = 2 powi (j - (expo x - 52)) * 2 powi (expo x - 52)"
    by (subst power_int_add [symmetric]) simp_all
  also have "(2::real) powi (j - (expo x - 52)) = 2 ^ nat (j - (expo x - 52))"
    using d by (rule power_int_nonneg_exp)
  finally have pj: "(2::real) powi j = 2 ^ nat (j - (expo x - 52)) * quantum x"
    by (simp add: quantum_def)
  define q where "q = quantum x"
  define n where "n = nat (j - (expo x - 52))"
  have q0: "q \<noteq> 0" using quantum_pos [of x] by (simp add: q_def)
  have "x = real_of_int m * (2 ^ n * q)"
    using assms(1) pj by (simp only: q_def n_def)
  then have xq: "x = real_of_int (m * 2 ^ n) * q" by simp
  then have "x / q = real_of_int (m * 2 ^ n)" using q0 by simp
  then have "roundEven (x / q) = m * 2 ^ n" by (simp only: roundEven_of_int)
  then have "nearest64 x = real_of_int (m * 2 ^ n) * q"
    by (simp only: nearest64_def q_def)
  with xq show "nearest64 x = x" by simp
qed

lemma round64_exact:
  assumes "x = of_int m * 2 powi j" and "\<bar>m\<bar> < 2 ^ 53" and "- 1074 \<le> j"
    and "\<bar>x\<bar> < 2 ^ 1024"
  shows "round64 x = Finite x"
proof -
  have n: "nearest64 x = x" by (rule nearest64_exact [OF assms(1-3)])
  show ?thesis using round64_Finite [of x] assms(4) by (simp only: n)
qed


lemma round64_of_int:
  assumes "\<bar>m\<bar> < 2 ^ 53"
  shows "round64 (of_int m) = Finite (of_int m)"
proof (rule round64_exact [where m = m and j = 0])
  show "real_of_int m = real_of_int m * 2 powi 0" by simp
  show "\<bar>m\<bar> < 2 ^ 53" by (rule assms)
  show "- 1074 \<le> (0::int)" by simp
  have "real_of_int \<bar>m\<bar> < real_of_int (2 ^ 53)" using assms by (simp only: of_int_less_iff)
  then have "\<bar>real_of_int m\<bar> < 2 ^ 53" by simp
  also have "(2::real) ^ 53 \<le> 2 ^ 1024" by (rule power_increasing) simp_all
  finally show "\<bar>real_of_int m\<bar> < 2 ^ 1024" .
qed

lemma round64_of_nat:
  assumes "n < 2 ^ 53"
  shows "round64 (real n) = Finite (real n)"
proof -
  have "\<bar>int n\<bar> < 2 ^ 53" using assms by (simp add: nat_less_iff [symmetric] nat_power_eq)
  from round64_of_int [OF this] show ?thesis by simp
qed

lemma round64_zero: "round64 0 = Finite 0"
  using round64_of_int [of 0] by simp

lemma round64_one: "round64 1 = Finite 1"
  using round64_of_int [of 1] by simp

lemma round64_numeral:
  "numeral k < (2::int) ^ 53 \<Longrightarrow> round64 (numeral k) = Finite (numeral k)"
  using round64_of_int [of "numeral k"] by simp

lemma round64_at:
  assumes "2 powi e \<le> \<bar>x\<bar>" and "\<bar>x\<bar> < 2 powi (e + 1)" and "- 1022 \<le> e"
    and "m = roundEven (x / 2 powi (e - 52))"
    and "\<bar>real_of_int m * 2 powi (e - 52)\<bar> < 2 ^ 1024"
  shows "round64 x = Finite (real_of_int m * 2 powi (e - 52))"
proof -
  have "quantum x = 2 powi (e - 52)"
    unfolding quantum_def expo_eqI [OF assms(1-3)] ..
  then have "nearest64 x = real_of_int m * 2 powi (e - 52)"
    by (simp add: nearest64_def assms(4))
  with round64_Finite [of x] assms(5) show ?thesis by simp
qed


text \<open>The rounding of a given real, from its exponent.\<close>

lemma round64_value:
  assumes "2 powi e \<le> \<bar>x\<bar>" and "\<bar>x\<bar> < 2 powi (e + 1)" and "- 1022 \<le> e" and "e \<le> 1022"
    and "m = roundEven (x / 2 powi (e - 52))" and "\<bar>m\<bar> \<le> 2 ^ 53"
    and "y = real_of_int m * 2 powi (e - 52)"
  shows "round64 x = Finite y"
proof -
  have "\<bar>real_of_int m * 2 powi (e - 52)\<bar> = real_of_int \<bar>m\<bar> * 2 powi (e - 52)"
    by (simp add: abs_mult)
  also have "\<dots> \<le> 2 ^ 53 * 2 powi (e - 52)"
  proof (rule mult_right_mono)
    have "real_of_int \<bar>m\<bar> \<le> real_of_int (2 ^ 53)" using assms(6) by (simp only: of_int_le_iff)
    then show "real_of_int \<bar>m\<bar> \<le> 2 ^ 53" by simp
    show "0 \<le> (2::real) powi (e - 52)" by simp
  qed
  also have "\<dots> = 2 powi 53 * 2 powi (e - 52)" by simp
  also have "\<dots> = 2 powi (53 + (e - 52))" by (rule power_int_add [symmetric]) simp
  also have "\<dots> \<le> 2 powi 1023" using assms(4) by (intro power_int_increasing) simp_all
  also have "\<dots> < 2 ^ 1024" by simp
  finally have "\<bar>real_of_int m * 2 powi (e - 52)\<bar> < 2 ^ 1024" .
  from round64_at [OF assms(1-3) assms(5) this] show ?thesis unfolding assms(7) .
qed

text \<open>The relative error of a rounding in the middle of the range.\<close>

lemma round64_rel:
  assumes "1 / 2 ^ 100 \<le> x" and "x \<le> 2 ^ 100"
  shows "\<exists>y. round64 x = Finite y \<and> x * (1 - 1 / 2 ^ 53) \<le> y \<and> y \<le> x * (1 + 1 / 2 ^ 53)"
proof -
  have "(0::real) < 1 / 2 ^ 100" by simp
  from this assms(1) have x0: "0 < x" by (rule less_le_trans)
  have "(2::real) powi (- 1022) = 1 / 2 ^ 1022" by (simp add: power_int_minus field_simps)
  also have "\<dots> \<le> 1 / 2 ^ 100" by simp
  also have "\<dots> \<le> \<bar>x\<bar>" using assms(1) x0 by simp
  finally have lo: "2 powi (- 1022) \<le> \<bar>x\<bar>" .
  have "\<bar>x\<bar> \<le> 2 ^ 100" using assms(2) x0 by simp
  also have "(2::real) ^ 100 < 2 ^ 1023" by simp
  finally have hi: "\<bar>x\<bar> < 2 ^ 1023" .
  from round64_normal [OF lo hi] obtain y where y: "round64 x = Finite y"
    and e: "\<bar>y - x\<bar> \<le> \<bar>x\<bar> / 2 ^ 53" by blast
  from e x0 have "\<bar>y - x\<bar> \<le> x / 2 ^ 53" by simp
  then have "x - x / 2 ^ 53 \<le> y" and "y \<le> x + x / 2 ^ 53" by linarith+
  then have "x * (1 - 1 / 2 ^ 53) \<le> y" and "y \<le> x * (1 + 1 / 2 ^ 53)"
    by (simp_all add: algebra_simps)
  with y show ?thesis by blast
qed

subsection \<open>Grid layout\<close>

declare gridLoop.simps [simp del]

lemma gridLoop_stop: "\<not> r * r \<le> n \<Longrightarrow> gridLoop n r best = best"
  by (subst gridLoop.simps) simp

lemma gridLoop_step_dvd:
  "r * r \<le> n \<Longrightarrow> n mod r = 0 \<Longrightarrow>
     gridLoop n r best = gridLoop n (Suc r) \<lparr>cols = n div r, rows = r\<rparr>"
  by (subst gridLoop.simps) simp

lemma gridLoop_step_skip:
  "r * r \<le> n \<Longrightarrow> n mod r \<noteq> 0 \<Longrightarrow> gridLoop n r best = gridLoop n (Suc r) best"
  by (subst gridLoop.simps) simp

lemma square_gt_imp_gt:
  fixes d r n :: nat
  assumes "\<not> r * r \<le> n" and "r \<le> d"
  shows "\<not> d * d \<le> n"
proof
  assume "d * d \<le> n"
  moreover have "r * r \<le> d * d" using assms(2) by (simp add: mult_le_mono)
  ultimately have "r * r \<le> n" by (rule le_trans [rotated])
  with assms(1) show False by simp
qed


lemma gridLoop_scan:
  "2 \<le> r \<Longrightarrow>
   (gridLoop n r best = best \<and> (\<forall>d. r \<le> d \<longrightarrow> \<not> rowCandidate n d))
   \<or> (rowCandidate n (rows (gridLoop n r best))
       \<and> r \<le> rows (gridLoop n r best)
       \<and> cols (gridLoop n r best) = n div rows (gridLoop n r best)
       \<and> (\<forall>d. r \<le> d \<and> rowCandidate n d \<longrightarrow> d \<le> rows (gridLoop n r best)))"
proof (induction n r best rule: gridLoop.induct)
  case (1 n r best)
  show ?case
  proof (cases "r * r \<le> n")
    case False
    have "\<forall>d. r \<le> d \<longrightarrow> \<not> rowCandidate n d"
      using square_gt_imp_gt [OF False] by (simp add: rowCandidate_def)
    then show ?thesis
      using gridLoop_stop [OF False] by simp
  next
    case le: True
    have r2: "2 \<le> r + 1" using "1.prems" by simp
    show ?thesis
    proof (cases "n mod r = 0")
      case dv: True
      let ?b = "\<lparr>cols = n div r, rows = r\<rparr>"
      let ?g = "gridLoop n (Suc r) ?b"
      have eq: "gridLoop n r best = ?g"
        using le dv by (rule gridLoop_step_dvd)
      have cand: "rowCandidate n r"
        using le dv "1.prems" by (simp add: rowCandidate_def)
      have ih: "(?g = ?b \<and> (\<forall>d. Suc r \<le> d \<longrightarrow> \<not> rowCandidate n d))
         \<or> (rowCandidate n (rows ?g) \<and> Suc r \<le> rows ?g \<and> cols ?g = n div rows ?g
             \<and> (\<forall>d. Suc r \<le> d \<and> rowCandidate n d \<longrightarrow> d \<le> rows ?g))"
        using "1.IH" [OF le r2] dv by simp
      from ih have "rowCandidate n (rows ?g) \<and> r \<le> rows ?g \<and> cols ?g = n div rows ?g
             \<and> (\<forall>d. r \<le> d \<and> rowCandidate n d \<longrightarrow> d \<le> rows ?g)"
      proof
        assume a: "?g = ?b \<and> (\<forall>d. Suc r \<le> d \<longrightarrow> \<not> rowCandidate n d)"
        then have rg: "rows ?g = r" and cg: "cols ?g = n div r" by simp_all
        have "d \<le> r" if "r \<le> d" "rowCandidate n d" for d
          using a that by (cases "d = r") (simp_all add: not_less_eq_eq)
        then have "\<forall>d. r \<le> d \<and> rowCandidate n d \<longrightarrow> d \<le> r" by blast
        with cand show ?thesis unfolding rg cg by simp
      next
        assume a: "rowCandidate n (rows ?g) \<and> Suc r \<le> rows ?g \<and> cols ?g = n div rows ?g
             \<and> (\<forall>d. Suc r \<le> d \<and> rowCandidate n d \<longrightarrow> d \<le> rows ?g)"
        have "d \<le> rows ?g" if "r \<le> d" "rowCandidate n d" for d
        proof (cases "d = r")
          case True then show ?thesis using a by simp
        next
          case False
          with that(1) have "Suc r \<le> d" by simp
          with a that(2) show ?thesis by blast
        qed
        moreover have "r \<le> rows ?g" using a by simp
        ultimately show ?thesis using a by blast
      qed
      then show ?thesis unfolding eq by blast
    next
      case ndv: False
      let ?g = "gridLoop n (Suc r) best"
      have eq: "gridLoop n r best = ?g"
        using le ndv by (rule gridLoop_step_skip)
      have ncand: "\<not> rowCandidate n r"
        using ndv by (simp add: rowCandidate_def)
      have ih: "(?g = best \<and> (\<forall>d. Suc r \<le> d \<longrightarrow> \<not> rowCandidate n d))
         \<or> (rowCandidate n (rows ?g) \<and> Suc r \<le> rows ?g \<and> cols ?g = n div rows ?g
             \<and> (\<forall>d. Suc r \<le> d \<and> rowCandidate n d \<longrightarrow> d \<le> rows ?g))"
        using "1.IH" [OF le r2] ndv by simp
      have up: "Suc r \<le> d" if "r \<le> d" "rowCandidate n d" for d
        using that ncand by (cases "d = r") simp_all
      from ih show ?thesis
      proof
        assume a: "?g = best \<and> (\<forall>d. Suc r \<le> d \<longrightarrow> \<not> rowCandidate n d)"
        then have "\<forall>d. r \<le> d \<longrightarrow> \<not> rowCandidate n d" using up by blast
        with a show ?thesis unfolding eq by blast
      next
        assume a: "rowCandidate n (rows ?g) \<and> Suc r \<le> rows ?g \<and> cols ?g = n div rows ?g
             \<and> (\<forall>d. Suc r \<le> d \<and> rowCandidate n d \<longrightarrow> d \<le> rows ?g)"
        then have "\<forall>d. r \<le> d \<and> rowCandidate n d \<longrightarrow> d \<le> rows ?g" using up by blast
        moreover have "r \<le> rows ?g" using a by simp
        ultimately show ?thesis unfolding eq using a by blast
      qed
    qed
  qed
qed


lemma gridLayout_scan:
  "(gridLayout n = \<lparr>cols = n, rows = 1\<rparr> \<and> (\<forall>d. \<not> rowCandidate n d))
   \<or> (rowCandidate n (rows (gridLayout n))
       \<and> cols (gridLayout n) = n div rows (gridLayout n)
       \<and> (\<forall>d. rowCandidate n d \<longrightarrow> d \<le> rows (gridLayout n)))"
proof -
  have two: "(2::nat) \<le> 2" by simp
  have ge: "2 \<le> d" if "rowCandidate n d" for d
    using that by (simp add: rowCandidate_def)
  from gridLoop_scan [OF two, of n "\<lparr>cols = n, rows = 1\<rparr>"]
  show ?thesis unfolding gridLayout_def using ge by blast
qed

lemma gridLayout_product: "cols (gridLayout n) * rows (gridLayout n) = n"
proof -
  from gridLayout_scan [of n] show ?thesis
  proof
    assume "gridLayout n = \<lparr>cols = n, rows = 1\<rparr> \<and> (\<forall>d. \<not> rowCandidate n d)"
    then show ?thesis by simp
  next
    assume a: "rowCandidate n (rows (gridLayout n))
       \<and> cols (gridLayout n) = n div rows (gridLayout n)
       \<and> (\<forall>d. rowCandidate n d \<longrightarrow> d \<le> rows (gridLayout n))"
    then have "n mod rows (gridLayout n) = 0" by (simp add: rowCandidate_def)
    then have "n div rows (gridLayout n) * rows (gridLayout n) = n"
      by (simp add: mod_0_imp_dvd)
    with a show ?thesis by simp
  qed
qed


text \<open>
  C2. For every \<open>n\<close> from 2 to 64, \<^verbatim>\<open>gridLayout(n)\<close> returns columns and rows whose
  product is \<open>n\<close>; the row count is the largest \<open>r\<close> with \<open>2 \<le> r\<close>, \<open>r * r \<le> n\<close> and
  \<open>r\<close> dividing \<open>n\<close>, and when there is no such \<open>r\<close> the result is \<open>n\<close> columns in one row.
\<close>

theorem gridLayout_factor_pair:
  assumes "2 \<le> n" and "n \<le> 64"
  shows "cols (gridLayout n) * rows (gridLayout n) = n
     \<and> (if \<exists>r. 2 \<le> r \<and> r * r \<le> n \<and> r dvd n
        then 2 \<le> rows (gridLayout n)
           \<and> rows (gridLayout n) * rows (gridLayout n) \<le> n
           \<and> rows (gridLayout n) dvd n
           \<and> (\<forall>r. 2 \<le> r \<and> r * r \<le> n \<and> r dvd n \<longrightarrow> r \<le> rows (gridLayout n))
        else cols (gridLayout n) = n \<and> rows (gridLayout n) = 1)"
proof -
  have cand: "rowCandidate n r \<longleftrightarrow> 2 \<le> r \<and> r * r \<le> n \<and> r dvd n" for r
    by (simp add: rowCandidate_def dvd_eq_mod_eq_0)
  have scan: "(gridLayout n = \<lparr>cols = n, rows = 1\<rparr>
        \<and> (\<forall>d. \<not> (2 \<le> d \<and> d * d \<le> n \<and> d dvd n)))
   \<or> ((2 \<le> rows (gridLayout n) \<and> rows (gridLayout n) * rows (gridLayout n) \<le> n
        \<and> rows (gridLayout n) dvd n)
       \<and> cols (gridLayout n) = n div rows (gridLayout n)
       \<and> (\<forall>d. 2 \<le> d \<and> d * d \<le> n \<and> d dvd n \<longrightarrow> d \<le> rows (gridLayout n)))"
    using gridLayout_scan [of n] unfolding cand .
  have second: "if \<exists>r. 2 \<le> r \<and> r * r \<le> n \<and> r dvd n
        then 2 \<le> rows (gridLayout n)
           \<and> rows (gridLayout n) * rows (gridLayout n) \<le> n
           \<and> rows (gridLayout n) dvd n
           \<and> (\<forall>r. 2 \<le> r \<and> r * r \<le> n \<and> r dvd n \<longrightarrow> r \<le> rows (gridLayout n))
        else cols (gridLayout n) = n \<and> rows (gridLayout n) = 1"
    using scan
  proof
    assume a: "gridLayout n = \<lparr>cols = n, rows = 1\<rparr>
        \<and> (\<forall>d. \<not> (2 \<le> d \<and> d * d \<le> n \<and> d dvd n))"
    then have nex: "\<not> (\<exists>r. 2 \<le> r \<and> r * r \<le> n \<and> r dvd n)" by blast
    from a have body: "cols (gridLayout n) = n \<and> rows (gridLayout n) = 1" by simp
    show ?thesis unfolding if_not_P [OF nex] by (rule body)
  next
    assume a: "(2 \<le> rows (gridLayout n) \<and> rows (gridLayout n) * rows (gridLayout n) \<le> n
        \<and> rows (gridLayout n) dvd n)
       \<and> cols (gridLayout n) = n div rows (gridLayout n)
       \<and> (\<forall>d. 2 \<le> d \<and> d * d \<le> n \<and> d dvd n \<longrightarrow> d \<le> rows (gridLayout n))"
    then have ex: "\<exists>r. 2 \<le> r \<and> r * r \<le> n \<and> r dvd n" by blast
    from a have body: "2 \<le> rows (gridLayout n)
           \<and> rows (gridLayout n) * rows (gridLayout n) \<le> n
           \<and> rows (gridLayout n) dvd n
           \<and> (\<forall>r. 2 \<le> r \<and> r * r \<le> n \<and> r dvd n \<longrightarrow> r \<le> rows (gridLayout n))"
      by blast
    show ?thesis unfolding if_P [OF ex] by (rule body)
  qed
  with gridLayout_product [of n] show ?thesis by (rule conjI)
qed

theorem gridLayout_factor_pair_witness:
  "(2::nat) \<le> 12 \<and> (12::nat) \<le> 64 \<and> (\<exists>r::nat. 2 \<le> r \<and> r * r \<le> 12 \<and> r dvd 12)
   \<and> gridLayout 12 = \<lparr>cols = 4, rows = 3\<rparr>
   \<and> cols (gridLayout 12) * rows (gridLayout 12) = 12
   \<and> rows (gridLayout 12) dvd 12"
proof -
  have h1: "(2::nat) \<le> 12" and h2: "(12::nat) \<le> 64" by simp_all
  have ex: "\<exists>r::nat. 2 \<le> r \<and> r * r \<le> 12 \<and> r dvd 12"
    by (rule exI [of _ 2]) simp
  have val: "gridLayout 12 = \<lparr>cols = 4, rows = 3\<rparr>"
    by (simp add: gridLayout_def gridLoop.simps)
  from gridLayout_factor_pair [OF h1 h2] ex
  have "cols (gridLayout 12) * rows (gridLayout 12) = 12
      \<and> rows (gridLayout 12) dvd 12"
    by simp
  with h1 h2 ex val show ?thesis by blast
qed

subsection \<open>Grid validation\<close>

declare searchDown.simps [simp del] searchUp.simps [simp del]

lemma searchDown_found:
  "2 \<le> lo \<Longrightarrow> lo \<le> k \<Longrightarrow> cleanCount lo \<Longrightarrow> (\<forall>m. lo < m \<and> m \<le> k \<longrightarrow> \<not> cleanCount m)
     \<Longrightarrow> searchDown k = [lo]"
proof (induction k rule: searchDown.induct)
  case (1 k)
  show ?case
  proof (cases "k = lo")
    case True
    then show ?thesis using "1.prems" by (subst searchDown.simps) simp
  next
    case False
    with "1.prems" have lt: "lo < k" by simp
    with "1.prems" have nc: "\<not> cleanCount k" by simp
    have k2: "2 \<le> k" using "1.prems" by simp
    have "searchDown (k - 1) = [lo]"
    proof (rule "1.IH" [OF k2 nc])
      show "2 \<le> lo" by fact
      show "lo \<le> k - 1" using lt by simp
      show "cleanCount lo" by fact
      show "\<forall>m. lo < m \<and> m \<le> k - 1 \<longrightarrow> \<not> cleanCount m" using "1.prems"(4) by auto
    qed
    then show ?thesis using k2 nc by (subst searchDown.simps) simp
  qed
qed

lemma searchDown_none:
  "(\<forall>m. 2 \<le> m \<and> m \<le> k \<longrightarrow> \<not> cleanCount m) \<Longrightarrow> searchDown k = []"
proof (induction k rule: searchDown.induct)
  case (1 k)
  show ?case
  proof (cases "2 \<le> k")
    case False
    then show ?thesis by (subst searchDown.simps) simp
  next
    case True
    with "1.prems" have nc: "\<not> cleanCount k" by simp
    have "\<forall>m. 2 \<le> m \<and> m \<le> k - 1 \<longrightarrow> \<not> cleanCount m"
      using "1.prems" by auto
    then have "searchDown (k - 1) = []"
      by (rule "1.IH" [OF True nc])
    then show ?thesis using True nc by (subst searchDown.simps) simp
  qed
qed

lemma searchUp_found:
  "k \<le> hi \<Longrightarrow> hi \<le> 16 \<Longrightarrow> cleanCount hi \<Longrightarrow> (\<forall>m. k \<le> m \<and> m < hi \<longrightarrow> \<not> cleanCount m)
     \<Longrightarrow> searchUp k = [hi]"
proof (induction k rule: searchUp.induct)
  case (1 k)
  show ?case
  proof (cases "k = hi")
    case True
    then show ?thesis using "1.prems" by (subst searchUp.simps) simp
  next
    case False
    with "1.prems" have lt: "k < hi" by simp
    with "1.prems" have nc: "\<not> cleanCount k" by simp
    have k16: "k \<le> 16" using "1.prems" by simp
    have "searchUp (k + 1) = [hi]"
    proof (rule "1.IH" [OF k16 nc])
      show "k + 1 \<le> hi" using lt by simp
      show "hi \<le> 16" by fact
      show "cleanCount hi" by fact
      show "\<forall>m. k + 1 \<le> m \<and> m < hi \<longrightarrow> \<not> cleanCount m" using "1.prems"(4) by simp
    qed
    then show ?thesis using k16 nc by (subst searchUp.simps) simp
  qed
qed

lemma searchUp_none:
  "(\<forall>m. k \<le> m \<and> m \<le> 16 \<longrightarrow> \<not> cleanCount m) \<Longrightarrow> searchUp k = []"
proof (induction k rule: searchUp.induct)
  case (1 k)
  show ?case
  proof (cases "k \<le> 16")
    case False
    then show ?thesis by (subst searchUp.simps) simp
  next
    case True
    with "1.prems" have nc: "\<not> cleanCount k" by simp
    have "\<forall>m. k + 1 \<le> m \<and> m \<le> 16 \<longrightarrow> \<not> cleanCount m"
      using "1.prems" by auto
    then have "searchUp (k + 1) = []"
      by (rule "1.IH" [OF True nc])
    then show ?thesis using True nc by (subst searchUp.simps) simp
  qed
qed

lemma nearestBelow_searchDown: "nearestBelow n lo \<Longrightarrow> searchDown (n - 1) = [lo]"
  unfolding nearestBelow_def
  by (rule searchDown_found) auto

lemma nearestAbove_searchUp: "nearestAbove n hi \<Longrightarrow> searchUp (n + 1) = [hi]"
  unfolding nearestAbove_def
  by (rule searchUp_found) auto

text \<open>
  C3. On the grid path, when the grid of \<open>n\<close> is one row of more than three columns,
  planning stops with the ``can't form a clean grid'' error, and whenever there are both a
  nearest clean count below \<open>n\<close> (not below 2) and a nearest clean count above \<open>n\<close>
  (not above 16), the suggestions are exactly these two, in this order.
\<close>

theorem clean_grid_rejection:
  assumes "rows (gridLayout n) = 1" and "cols (gridLayout n) > 3"
  shows "\<exists>suggest.
           planGrid lg gemini n a = Inl (CleanGridError n (cols (gridLayout n)) suggest)
           \<and> (\<forall>lo hi. nearestBelow n lo \<and> nearestAbove n hi \<longrightarrow> suggest = [lo, hi])"
proof -
  let ?suggest = "searchDown (n - 1) @ searchUp (n + 1)"
  have rejected: "planGrid lg gemini n a = Inl (CleanGridError n (cols (gridLayout n)) ?suggest)"
    using assms by (simp add: planGrid_def Let_def)
  have both: "?suggest = [lo, hi]" if "nearestBelow n lo" and "nearestAbove n hi" for lo hi
    using nearestBelow_searchDown [OF that(1)] nearestAbove_searchUp [OF that(2)] by simp
  from rejected both show ?thesis by blast
qed

theorem clean_grid_rejection_witness:
  "rows (gridLayout 7) = 1 \<and> cols (gridLayout 7) > 3
   \<and> nearestBelow 7 6 \<and> nearestAbove 7 8
   \<and> planGrid lnRounded gemini 7 (Finite 1) = Inl (CleanGridError 7 7 [6, 8])
   \<and> diagnosis (CleanGridError 7 7 [6, 8])
       = ''Error: 7 frames can't form a clean grid (only 7x1). Try: 6 or 8''"
proof -
  have g7: "gridLayout 7 = \<lparr>cols = 7, rows = 1\<rparr>"
    by (simp add: gridLayout_def gridLoop.simps)
  have h1: "rows (gridLayout 7) = 1" and h2: "cols (gridLayout 7) > 3"
    by (simp_all add: g7)
  have g6: "gridLayout 6 = \<lparr>cols = 3, rows = 2\<rparr>"
    by (simp add: gridLayout_def gridLoop.simps)
  have g8: "gridLayout 8 = \<lparr>cols = 4, rows = 2\<rparr>"
    by (simp add: gridLayout_def gridLoop.simps)
  have lo: "nearestBelow 7 6"
    by (auto simp: nearestBelow_def cleanCount_def g6)
  have hi: "nearestAbove 7 8"
    by (auto simp: nearestAbove_def cleanCount_def g8)
  from clean_grid_rejection [OF h1 h2, where lg = lnRounded and a = "Finite 1"] lo hi
  have plan: "planGrid lnRounded gemini 7 (Finite 1) = Inl (CleanGridError 7 7 [6, 8])"
    by (auto simp: g7)
  have msg: "diagnosis (CleanGridError 7 7 [6, 8])
       = ''Error: 7 frames can't form a clean grid (only 7x1). Try: 6 or 8''"
    by code_simp
  from h1 h2 lo hi plan msg show ?thesis by blast
qed

subsection \<open>Frame validation\<close>

lemma checkFrames_None:
  "checkFrames i vs = None \<longleftrightarrow> (\<forall>v \<in> set vs. \<not> invalidFrame v)"
  by (induction vs arbitrary: i) auto

lemma checkFrames_Some:
  "checkFrames i vs = Some j \<Longrightarrow>
     i \<le> j \<and> j - i < length vs \<and> invalidFrame (vs ! (j - i))
     \<and> (\<forall>k < j - i. \<not> invalidFrame (vs ! k))"
proof (induction vs arbitrary: i)
  case Nil
  then show ?case by simp
next
  case (Cons v vs)
  show ?case
  proof (cases "invalidFrame v")
    case True
    with Cons.prems have "j = i" by simp
    with True show ?thesis by simp
  next
    case False
    with Cons.prems have rest: "checkFrames (i + 1) vs = Some j" by simp
    from Cons.IH [OF rest]
    have ih: "i + 1 \<le> j" "j - (i + 1) < length vs" "invalidFrame (vs ! (j - (i + 1)))"
      "\<forall>k < j - (i + 1). \<not> invalidFrame (vs ! k)"
      by simp_all
    from ih(1) have ji: "j - i = Suc (j - (i + 1))" by simp
    have before: "\<not> invalidFrame ((v # vs) ! k)" if "k < j - i" for k
    proof (cases k)
      case 0
      then show ?thesis using False by simp
    next
      case (Suc k')
      with that ji have "k' < j - (i + 1)" by simp
      with ih(4) Suc show ?thesis by simp
    qed
    from ih ji before show ?thesis by simp
  qed
qed

lemma checkFrames_first:
  assumes "i < length vs" and "invalidFrame (vs ! i)"
  shows "\<exists>j \<le> i. checkFrames 0 vs = Some j \<and> invalidFrame (vs ! j)
           \<and> (\<forall>k < j. \<not> invalidFrame (vs ! k))"
proof (cases "checkFrames 0 vs")
  case None
  then have "\<forall>v \<in> set vs. \<not> invalidFrame v" by (simp add: checkFrames_None)
  with assms show ?thesis by simp
next
  case (Some j)
  from checkFrames_Some [OF Some]
  have j: "invalidFrame (vs ! j)" "\<forall>k < j. \<not> invalidFrame (vs ! k)" by simp_all
  have "j \<le> i"
  proof (rule ccontr)
    assume "\<not> j \<le> i"
    then have "i < j" by simp
    with j(2) assms(2) show False by simp
  qed
  with Some j show ?thesis by simp
qed

lemma executeFrameScript_array:
  assumes "exitCode run = Some 0" and "parsed run = Some (JArray svgs)" and "svgs \<noteq> []"
  shows "executeFrameScript run opts =
     ((if length svgs \<noteq> numFrames opts
       then [FrameCountWarning (length svgs) (numFrames opts)] else []),
      (case checkFrames 0 svgs of
         Some i \<Rightarrow> Inl (FrameNotSVG i)
       | None \<Rightarrow> Inr (map stringOf svgs)))"
  using assms by (simp add: executeFrameScript_def Let_def split: option.split)

lemma executeFrameScript_empty:
  assumes "exitCode run = Some 0" and "parsed run = Some (JArray [])"
  shows "executeFrameScript run opts = ([], Inl (ExpectedArray ''object''))"
  using assms by (simp add: executeFrameScript_def)

lemma executeFrameScript_Inr:
  assumes "executeFrameScript run opts = (warns, Inr svgs)"
  shows "\<exists>vs. parsed run = Some (JArray vs) \<and> vs \<noteq> [] \<and> exitCode run = Some 0
           \<and> checkFrames 0 vs = None \<and> svgs = map stringOf vs"
  using assms
  by (auto simp: executeFrameScript_def Let_def
           split: if_splits option.splits json.splits)

text \<open>
  C7. When the parsed output is an array with an element that is not a string starting,
  once trimmed, with \<^verbatim>\<open><svg\<close>, the run ends with the error ``frame j is not a valid SVG
  string'', where \<open>j\<close> is the first index of such an element; an array whose elements all
  pass the test never ends with this error.
\<close>

theorem invalid_frame_rejected:
  assumes "exitCode run = Some 0" and "parsed run = Some (JArray svgs)"
  shows "(\<forall>i. i < length svgs \<and> invalidFrame (svgs ! i) \<longrightarrow>
            (\<exists>j \<le> i. invalidFrame (svgs ! j) \<and> (\<forall>k < j. \<not> invalidFrame (svgs ! k))
               \<and> snd (executeFrameScript run opts) = Inl (FrameNotSVG j)))
     \<and> ((\<forall>v \<in> set svgs. \<not> invalidFrame v) \<longrightarrow>
            (\<forall>j. snd (executeFrameScript run opts) \<noteq> Inl (FrameNotSVG j)))"
proof (intro conjI allI impI)
  fix i
  assume a: "i < length svgs \<and> invalidFrame (svgs ! i)"
  then have ne: "svgs \<noteq> []" by auto
  from a obtain j where j: "j \<le> i" "checkFrames 0 svgs = Some j" "invalidFrame (svgs ! j)"
      "\<forall>k < j. \<not> invalidFrame (svgs ! k)"
    using checkFrames_first [of i svgs] by blast
  have "snd (executeFrameScript run opts) = Inl (FrameNotSVG j)"
    by (simp add: executeFrameScript_array [OF assms ne] j(2))
  with j show "\<exists>j \<le> i. invalidFrame (svgs ! j) \<and> (\<forall>k < j. \<not> invalidFrame (svgs ! k))
               \<and> snd (executeFrameScript run opts) = Inl (FrameNotSVG j)"
    by blast
next
  fix j
  assume ok: "\<forall>v \<in> set svgs. \<not> invalidFrame v"
  then have none: "checkFrames 0 svgs = None" by (simp add: checkFrames_None)
  show "snd (executeFrameScript run opts) \<noteq> Inl (FrameNotSVG j)"
  proof (cases "svgs = []")
    case True
    with assms show ?thesis by (simp add: executeFrameScript_empty)
  next
    case False
    show ?thesis by (simp add: executeFrameScript_array [OF assms False] none)
  qed
qed

lemma svg_tag_valid: "\<not> invalidFrame (JString (js ''<svg/>''))"
  by (simp add: js_def trim_def startsWith_def isWhiteSpace_def)

lemma sampleSvg_valid: "\<not> invalidFrame (JString sampleSvg)"
  by (simp add: sampleSvg_def js_def trim_def startsWith_def isWhiteSpace_def)

theorem invalid_frame_rejected_witness:
  "exitCode \<lparr>exitCode = Some 0, parsed = Some (JArray [JString (js ''<svg/>''), JNumber 42])\<rparr>
     = Some 0
   \<and> invalidFrame ([JString (js ''<svg/>''), JNumber 42] ! 1)
   \<and> snd (executeFrameScript
            \<lparr>exitCode = Some 0, parsed = Some (JArray [JString (js ''<svg/>''), JNumber 42])\<rparr>
            \<lparr>numFrames = 2, outputW = 128, outputH = 128, cols = 2, rows = 1, frameAR = Finite 1\<rparr>)
       = Inl (FrameNotSVG 1)
   \<and> diagnosis (FrameNotSVG 1) = ''Error: frame 1 is not a valid SVG string''"
proof -
  let ?svgs = "[JString (js ''<svg/>''), JNumber 42]"
  let ?run = "\<lparr>exitCode = Some 0, parsed = Some (JArray ?svgs)\<rparr>"
  let ?opts = "\<lparr>numFrames = 2, outputW = 128, outputH = 128, cols = 2, rows = 1, frameAR = Finite 1\<rparr>"
  have h1: "exitCode ?run = Some 0" and h2: "parsed ?run = Some (JArray ?svgs)" by simp_all
  have bad: "(1::nat) < length ?svgs \<and> invalidFrame (?svgs ! 1)" by simp
  have good: "\<not> invalidFrame (?svgs ! 0)" using svg_tag_valid by simp
  from invalid_frame_rejected [OF h1 h2, of ?opts] bad
  obtain j where j: "j \<le> 1" "invalidFrame (?svgs ! j)"
      "snd (executeFrameScript ?run ?opts) = Inl (FrameNotSVG j)"
    by blast
  have "j = 1"
  proof (rule ccontr)
    assume "j \<noteq> 1"
    with j(1) have "j = 0" by simp
    with j(2) good show False by simp
  qed
  with j(3) have res: "snd (executeFrameScript ?run ?opts) = Inl (FrameNotSVG 1)" by simp
  have msg: "diagnosis (FrameNotSVG 1) = ''Error: frame 1 is not a valid SVG string''"
    by code_simp
  from h1 bad res msg show ?thesis by blast
qed

text \<open>
  C9. An empty JSON array ends the run with the error ``expected array of SVG strings'',
  not with a count warning; so the array \<^verbatim>\<open>executeFrameScript\<close> returns is never
  empty.
\<close>

theorem empty_array_fatal:
  "(exitCode run = Some 0 \<and> parsed run = Some (JArray []) \<longrightarrow>
      executeFrameScript run opts = ([], Inl (ExpectedArray ''object'')))
   \<and> (executeFrameScript run opts = (warns, Inr svgs) \<longrightarrow> svgs \<noteq> [])"
proof (intro conjI impI)
  assume "exitCode run = Some 0 \<and> parsed run = Some (JArray [])"
  then show "executeFrameScript run opts = ([], Inl (ExpectedArray ''object''))"
    by (simp add: executeFrameScript_empty)
next
  assume "executeFrameScript run opts = (warns, Inr svgs)"
  from executeFrameScript_Inr [OF this] show "svgs \<noteq> []" by auto
qed

theorem empty_array_fatal_witness:
  "executeFrameScript \<lparr>exitCode = Some 0, parsed = Some (JArray [])\<rparr>
      \<lparr>numFrames = 4, outputW = 128, outputH = 128, cols = 2, rows = 2, frameAR = Finite 1\<rparr>
     = ([], Inl (ExpectedArray ''object''))
   \<and> diagnosis (ExpectedArray ''object'') = ''Error: expected array of SVG strings, got object''
   \<and> executeFrameScript \<lparr>exitCode = Some 0, parsed = Some (JArray [JString (sampleSvg)])\<rparr>
      \<lparr>numFrames = 1, outputW = 128, outputH = 128, cols = 1, rows = 1, frameAR = Finite 1\<rparr>
     = ([], Inr [sampleSvg])
   \<and> [sampleSvg] \<noteq> []"
proof -
  let ?opts = "\<lparr>numFrames = 4, outputW = 128, outputH = 128, cols = 2, rows = 2, frameAR = Finite 1\<rparr>"
  let ?run1 = "\<lparr>exitCode = Some 0, parsed = Some (JArray [JString (sampleSvg)])\<rparr>"
  let ?opts1 = "\<lparr>numFrames = 1, outputW = 128, outputH = 128, cols = 1, rows = 1, frameAR = Finite 1\<rparr>"
  have a: "executeFrameScript \<lparr>exitCode = Some 0, parsed = Some (JArray [])\<rparr> ?opts
             = ([], Inl (ExpectedArray ''object''))"
    using empty_array_fatal [of "\<lparr>exitCode = Some 0, parsed = Some (JArray [])\<rparr>" ?opts]
    by simp
  have b: "diagnosis (ExpectedArray ''object'')
             = ''Error: expected array of SVG strings, got object''"
    by simp
  have c: "executeFrameScript ?run1 ?opts1 = ([], Inr [sampleSvg])"
    using sampleSvg_valid by (simp add: executeFrameScript_def)
  have d: "[sampleSvg] \<noteq> []"
    using empty_array_fatal [of ?run1 ?opts1 "[]" "[sampleSvg]"] c by simp
  from a b c d show ?thesis by blast
qed

subsection \<open>The procedural path\<close>

lemma svgToPng_Inr:
  "svgToPng renders opts svg = Inr png \<Longrightarrow>
     png = \<lparr>bufWidth = outputW opts, bufHeight = outputH opts,
            origin = Resize contain (SvgDoc svg)\<rparr>"
  by (auto simp: svgToPng_def sharpResize_def split: if_splits)

lemma svgToPng_ok:
  "renders svg \<Longrightarrow> 0 < outputW opts \<Longrightarrow> 0 < outputH opts \<Longrightarrow>
     svgToPng renders opts svg =
       Inr \<lparr>bufWidth = outputW opts, bufHeight = outputH opts,
            origin = Resize contain (SvgDoc svg)\<rparr>"
  by (simp add: svgToPng_def sharpResize_def)

lemma svgFrames_Inr:
  "svgFrames renders opts svgs frames = Inr out \<Longrightarrow>
     out = frames @ map (\<lambda>svg. \<lparr>bufWidth = outputW opts, bufHeight = outputH opts,
                                 origin = Resize contain (SvgDoc svg)\<rparr>) svgs"
proof (induction svgs arbitrary: frames)
  case Nil
  then show ?case by simp
next
  case (Cons svg svgs)
  from Cons.prems obtain png where png: "svgToPng renders opts svg = Inr png"
      and rest: "svgFrames renders opts svgs (frames @ [png]) = Inr out"
    by (auto split: sum.splits)
  from Cons.IH [OF rest] svgToPng_Inr [OF png] show ?case by simp
qed

lemma svgFrames_ok:
  "\<forall>svg \<in> set svgs. renders svg \<Longrightarrow> 0 < outputW opts \<Longrightarrow> 0 < outputH opts \<Longrightarrow>
     svgFrames renders opts svgs frames =
       Inr (frames @ map (\<lambda>svg. \<lparr>bufWidth = outputW opts, bufHeight = outputH opts,
                                    origin = Resize contain (SvgDoc svg)\<rparr>) svgs)"
  by (induction svgs arbitrary: frames) (simp_all add: svgToPng_ok)

lemma generateClaude_Inr:
  assumes "generateClaude renders run opts = (warns, Inr frames)"
  shows "\<exists>svgs. executeFrameScript run opts = (warns, Inr svgs)
           \<and> frames = map (\<lambda>svg. \<lparr>bufWidth = outputW opts, bufHeight = outputH opts,
                                     origin = Resize contain (SvgDoc svg)\<rparr>) svgs"
proof -
  obtain w res where ex: "executeFrameScript run opts = (w, res)"
    by (cases "executeFrameScript run opts")
  show ?thesis
  proof (cases res)
    case (Inl e)
    with ex assms show ?thesis by (simp add: generateClaude_def)
  next
    case (Inr svgs)
    with ex assms have w: "w = warns" and fr: "svgFrames renders opts svgs [] = Inr frames"
      by (simp_all add: generateClaude_def)
    from svgFrames_Inr [OF fr] ex Inr w show ?thesis by simp
  qed
qed

text \<open>
  C8, as the claim states it, fails on the empty array: it has no offending element and
  its length 0 differs from the 4 requested frames, and the run ends with an error and no
  warning.
\<close>

theorem count_mismatch_counterexample:
  "exitCode \<lparr>exitCode = Some 0, parsed = Some (JArray [])\<rparr> = Some 0
   \<and> filter invalidFrame [] = []
   \<and> length ([] :: json list)
       \<noteq> numFrames \<lparr>numFrames = 4, outputW = 128, outputH = 128, cols = 2, rows = 2, frameAR = Finite 1\<rparr>
   \<and> executeFrameScript \<lparr>exitCode = Some 0, parsed = Some (JArray [])\<rparr>
        \<lparr>numFrames = 4, outputW = 128, outputH = 128, cols = 2, rows = 2, frameAR = Finite 1\<rparr>
       = ([], Inl (ExpectedArray ''object''))"
  by (simp add: executeFrameScript_def)

text \<open>
  C8, amended. For every non-empty JSON array of valid SVG strings whose length differs
  from the requested frame count, \<^verbatim>\<open>executeFrameScript\<close> logs the count warning and
  returns the array as it is, and \<^verbatim>\<open>generateClaude\<close> goes on to rasterise every
  element of it: when each element renders and the output size is positive, it returns as
  many frames as the array has elements.
\<close>

theorem count_mismatch_recoverable:
  assumes "exitCode run = Some 0" and "parsed run = Some (JArray vs)" and "vs \<noteq> []"
    and "\<forall>v \<in> set vs. \<not> invalidFrame v"
    and "length vs \<noteq> numFrames opts"
  shows "executeFrameScript run opts
           = ([FrameCountWarning (length vs) (numFrames opts)], Inr (map stringOf vs))
     \<and> generateClaude renders run opts
           = ([FrameCountWarning (length vs) (numFrames opts)],
              svgFrames renders opts (map stringOf vs) [])
     \<and> ((\<forall>v \<in> set vs. renders (stringOf v)) \<and> 0 < outputW opts \<and> 0 < outputH opts \<longrightarrow>
          (\<exists>frames. generateClaude renders run opts
                       = ([FrameCountWarning (length vs) (numFrames opts)], Inr frames)
                     \<and> length frames = length vs))"
proof -
  have none: "checkFrames 0 vs = None"
    using assms(4) by (simp add: checkFrames_None)
  have ex: "executeFrameScript run opts
           = ([FrameCountWarning (length vs) (numFrames opts)], Inr (map stringOf vs))"
    using assms(5) by (simp add: executeFrameScript_array [OF assms(1-3)] none)
  have gen: "generateClaude renders run opts
           = ([FrameCountWarning (length vs) (numFrames opts)],
              svgFrames renders opts (map stringOf vs) [])"
    by (simp add: generateClaude_def ex)
  have down: "\<exists>frames. generateClaude renders run opts
                       = ([FrameCountWarning (length vs) (numFrames opts)], Inr frames)
                     \<and> length frames = length vs"
    if "(\<forall>v \<in> set vs. renders (stringOf v)) \<and> 0 < outputW opts \<and> 0 < outputH opts"
  proof -
    from that have all: "\<forall>svg \<in> set (map stringOf vs). renders svg" by simp
    from that have pos: "0 < outputW opts" "0 < outputH opts" by simp_all
    show ?thesis
      unfolding gen svgFrames_ok [OF all pos] by simp
  qed
  from ex gen down show ?thesis by blast
qed

theorem count_mismatch_recoverable_witness:
  "length (replicate 5 (JString (sampleSvg)))
     \<noteq> numFrames \<lparr>numFrames = 4, outputW = 128, outputH = 128, cols = 2, rows = 2, frameAR = Finite 1\<rparr>
   \<and> executeFrameScript
        \<lparr>exitCode = Some 0, parsed = Some (JArray (replicate 5 (JString (sampleSvg))))\<rparr>
        \<lparr>numFrames = 4, outputW = 128, outputH = 128, cols = 2, rows = 2, frameAR = Finite 1\<rparr>
       = ([FrameCountWarning 5 4], Inr (replicate 5 (sampleSvg)))
   \<and> (\<exists>frames. generateClaude (\<lambda>svg. True)
        \<lparr>exitCode = Some 0, parsed = Some (JArray (replicate 5 (JString (sampleSvg))))\<rparr>
        \<lparr>numFrames = 4, outputW = 128, outputH = 128, cols = 2, rows = 2, frameAR = Finite 1\<rparr>
       = ([FrameCountWarning 5 4], Inr frames) \<and> length frames = 5)
   \<and> warningText (FrameCountWarning 5 4) = ''Warning: got 5 frames (expected 4)''"
proof -
  let ?vs = "replicate 5 (JString (sampleSvg))"
  let ?run = "\<lparr>exitCode = Some 0, parsed = Some (JArray ?vs)\<rparr>"
  let ?opts = "\<lparr>numFrames = 4, outputW = 128, outputH = 128, cols = 2, rows = 2, frameAR = Finite 1\<rparr>"
  have h1: "exitCode ?run = Some 0" and h2: "parsed ?run = Some (JArray ?vs)"
    and h3: "?vs \<noteq> []" by simp_all
  have h4: "\<forall>v \<in> set ?vs. \<not> invalidFrame v" using sampleSvg_valid by simp
  have h5: "length ?vs \<noteq> numFrames ?opts" by simp
  note main = count_mismatch_recoverable [OF h1 h2 h3 h4 h5, of "\<lambda>svg. True"]
  from main have "executeFrameScript ?run ?opts
       = ([FrameCountWarning (length ?vs) (numFrames ?opts)], Inr (map stringOf ?vs))"
    by (rule conjunct1)
  then have a: "executeFrameScript ?run ?opts
       = ([FrameCountWarning 5 4], Inr (replicate 5 (sampleSvg)))"
    by simp
  have pre: "(\<forall>v \<in> set ?vs. True) \<and> 0 < outputW ?opts \<and> 0 < outputH ?opts" by simp
  from main pre have "\<exists>frames. generateClaude (\<lambda>svg. True) ?run ?opts
       = ([FrameCountWarning (length ?vs) (numFrames ?opts)], Inr frames)
       \<and> length frames = length ?vs"
    by blast
  then have b: "\<exists>frames. generateClaude (\<lambda>svg. True) ?run ?opts
       = ([FrameCountWarning 5 4], Inr frames) \<and> length frames = 5"
    by simp
  have c: "warningText (FrameCountWarning 5 4) = ''Warning: got 5 frames (expected 4)''"
    by code_simp
  from h5 a b c show ?thesis by blast
qed

subsection \<open>Cell geometry\<close>

text \<open>
  The cell sizes are floors of exact quotients in this theory. For integers below
  \<open>2 ^ 53\<close> the binary64 quotient, which the code floors, has the same floor.
\<close>

lemma floor_quotient_exact:
  fixes n a :: nat
  assumes "0 < a" and "a < 2 ^ 53" and "n < 2 ^ 53"
  shows "\<exists>y. divide64 (Finite (real n)) (Finite (real a)) = Finite y
           \<and> \<lfloor>y\<rfloor> = \<lfloor>real n / real a\<rfloor>"
proof -
  define x where "x = real n / real a"
  define q where "q = n div a"
  define m where "m = n mod a"
  have a0: "0 < real a" using assms(1) by simp
  have d: "divide64 (Finite (real n)) (Finite (real a)) = round64 x"
    using assms(1) by (simp add: x_def)
  have "n = q * a + m" unfolding q_def m_def by simp
  then have "real n = real q * real a + real m" by (simp only: of_nat_add of_nat_mult)
  then have xq: "x = real q + real m / real a"
    unfolding x_def using a0 by (simp add: add_divide_distrib)
  have ml: "real m < real a" unfolding m_def using assms(1) by simp
  have qn: "q \<le> n" unfolding q_def by simp
  show ?thesis
  proof (cases "m = 0")
    case True
    then have xi: "x = real q" using xq by simp
    have "q < 2 ^ 53" using qn assms(3) by simp
    then have "round64 (real q) = Finite (real q)" by (rule round64_of_nat)
    then show ?thesis unfolding d xi x_def [symmetric] by simp
  next
    case False
    then have m1: "1 \<le> real m" by simp
    have lo: "real q + 1 / real a \<le> x"
      unfolding xq using m1 a0 by (simp add: divide_right_mono)
    have "m < a" unfolding m_def using assms(1) by simp
    then have "m + 1 \<le> a" by simp
    then have "real (m + 1) \<le> real a" by (simp only: of_nat_le_iff)
    then have "real m \<le> real a - 1" by simp
    then have "real m / real a \<le> (real a - 1) / real a" using a0 by (simp add: divide_right_mono)
    also have "\<dots> = 1 - 1 / real a" using a0 by (simp add: diff_divide_distrib)
    finally have hi: "x \<le> real q + 1 - 1 / real a" unfolding xq by simp
    have ia: "0 < 1 / real a" using a0 by simp
    have q0: "0 \<le> real q" by simp
    have x0: "0 < x" using lo ia q0 by linarith
    have "real n < real ((2::nat) ^ 53)" using assms(3) by (simp only: of_nat_less_iff)
    then have n53: "real n < 2 ^ 53" by simp
    have "real a < real ((2::nat) ^ 53)" using assms(2) by (simp only: of_nat_less_iff)
    then have a53: "real a < 2 ^ 53" by simp
    have "1 / 2 ^ 53 \<le> 1 / real a" using a0 a53 by (simp add: frac_le)
    also have "\<dots> \<le> x" using lo by simp
    finally have xl: "1 / 2 ^ 53 \<le> x" .
    have "x \<le> real n / 1" unfolding x_def using assms(1) by (intro frac_le) simp_all
    then have xh: "x < 2 ^ 53" using n53 by simp
    have "(2::real) powi (- 1022) = 1 / 2 ^ 1022" by (simp add: power_int_minus field_simps)
    also have "\<dots> \<le> 1 / 2 ^ 53" by simp
    also have "\<dots> \<le> \<bar>x\<bar>" using xl by simp
    finally have r1: "2 powi (- 1022) \<le> \<bar>x\<bar>" .
    have "\<bar>x\<bar> < 2 ^ 53" using xh x0 by simp
    also have "(2::real) ^ 53 < 2 ^ 1023" by simp
    finally have r2: "\<bar>x\<bar> < 2 ^ 1023" .
    from round64_normal [OF r1 r2] obtain y where y: "round64 x = Finite y"
      and e: "\<bar>y - x\<bar> \<le> \<bar>x\<bar> / 2 ^ 53" by blast
    have "\<bar>x\<bar> / 2 ^ 53 = (real n / 2 ^ 53) / real a"
      using x0 by (simp add: x_def)
    also have "\<dots> < 1 / real a"
    proof (rule divide_strict_right_mono)
      show "real n / 2 ^ 53 < 1" using n53 by simp
      show "0 < real a" by (rule a0)
    qed
    finally have "\<bar>y - x\<bar> < 1 / real a" using e by simp
    with lo hi have "real q < y" and "y < real q + 1" by linarith+
    then have fy: "\<lfloor>y\<rfloor> = int q" by linarith
    have "real q \<le> x" and "x < real q + 1" using lo hi ia by linarith+
    then have fx: "\<lfloor>x\<rfloor> = int q" by linarith
    from y fy fx show ?thesis unfolding d x_def by simp
  qed
qed


lemma inset_bounds:
  fixes f i :: int
  assumes "3 \<le> f" and "i = max 1 (mathRound (real_of_int f * 0.03))"
  shows "1 \<le> i" and "2 * i < f"
proof -
  show "1 \<le> i" using assms(2) by simp
  have "real_of_int (mathRound (real_of_int f * 0.03)) \<le> real_of_int f * 0.03 + 1 / 2"
    unfolding mathRound_def by (rule of_int_floor_le)
  also have "\<dots> < real_of_int f / 2" using assms(1) by simp
  finally have "2 * real_of_int (mathRound (real_of_int f * 0.03)) < real_of_int f" by simp
  then have "2 * mathRound (real_of_int f * 0.03) < f" by linarith
  moreover have "2 * (1::int) < f" using assms(1) by simp
  ultimately show "2 * i < f" using assms(2) by (simp add: max_def)
qed

lemma floor_quotient_mult_le:
  fixes a f :: int and n :: nat
  assumes "1 \<le> a" and "f = \<lfloor>real n / real_of_int a\<rfloor>"
  shows "f * a \<le> int n"
proof -
  have "real_of_int f \<le> real n / real_of_int a"
    unfolding assms(2) by (rule of_int_floor_le)
  moreover have "0 < real_of_int a" using assms(1) by simp
  ultimately have "real_of_int f * real_of_int a \<le> real n"
    by (simp add: pos_le_divide_eq)
  then have "real_of_int (f * a) \<le> real_of_int (int n)" by simp
  then show ?thesis by (simp only: of_int_le_iff)
qed

lemma cell_span:
  fixes a f :: int and k :: nat
  assumes "0 \<le> f" and "int k < a"
  shows "(int k + 1) * f \<le> a * f"
proof -
  from assms(2) have "int k + 1 \<le> a" by simp
  then show ?thesis using assms(1) by (rule mult_right_mono)
qed

lemma axis_inside:
  fixes a f i :: int and n k :: nat
  assumes "1 \<le> a" and "f = \<lfloor>real n / real_of_int a\<rfloor>" and "3 \<le> f"
    and "i = max 1 (mathRound (real_of_int f * 0.03))" and "int k < a"
  shows "0 \<le> int k * f + i" and "0 < f - i * 2" and "int k * f + i + (f - i * 2) \<le> int n"
proof -
  note ib = inset_bounds [OF assms(3) assms(4)]
  have f0: "0 \<le> f" using assms(3) by simp
  have "0 \<le> int k * f" using f0 by simp
  with ib(1) show "0 \<le> int k * f + i" by simp
  from ib(2) show "0 < f - i * 2" by simp
  have "int k * f + i + (f - i * 2) = (int k + 1) * f - i" by (simp add: algebra_simps)
  also have "\<dots> \<le> a * f - i" using cell_span [OF f0 assms(5)] by simp
  also have "\<dots> \<le> int n - i"
    using floor_quotient_mult_le [OF assms(1) assms(2)] by (simp add: mult.commute)
  also have "\<dots> \<le> int n" using ib(1) by simp
  finally show "int k * f + i + (f - i * 2) \<le> int n" .
qed

text \<open>
  C10. For an image of \<open>imgW\<close> by \<open>imgH\<close> pixels, at least one column and one row, cell
  sizes \<open>frameW = floor(imgW / cols)\<close> and \<open>frameH = floor(imgH / actualRows)\<close> of at
  least 3 pixels and the 3 percent insets, the rectangle extracted for every cell of the
  grid has a positive width and height and lies inside the image, so its extraction
  succeeds.
\<close>

theorem cell_region_inside:
  assumes "1 \<le> c" and "1 \<le> actualRows g"
    and "frameW g = \<lfloor>real imgW / real c\<rfloor>" and "3 \<le> frameW g"
    and "frameH g = \<lfloor>real imgH / real_of_int (actualRows g)\<rfloor>" and "3 \<le> frameH g"
    and "insetX g = max 1 (mathRound (real_of_int (frameW g) * 0.03))"
    and "insetY g = max 1 (mathRound (real_of_int (frameH g) * 0.03))"
    and "col < c" and "int row < actualRows g"
  shows "0 < width (cellRegion g row col) \<and> 0 < height (cellRegion g row col)
     \<and> 0 \<le> left (cellRegion g row col) \<and> 0 \<le> top (cellRegion g row col)
     \<and> left (cellRegion g row col) + width (cellRegion g row col) \<le> int imgW
     \<and> top (cellRegion g row col) + height (cellRegion g row col) \<le> int imgH
     \<and> sharpExtract imgW imgH (cellRegion g row col)
         = Inr \<lparr>bufWidth = nat (width (cellRegion g row col)),
                bufHeight = nat (height (cellRegion g row col)),
                origin = SheetRegion (left (cellRegion g row col)) (top (cellRegion g row col))
                           (width (cellRegion g row col)) (height (cellRegion g row col))\<rparr>"
proof -
  have c1: "1 \<le> int c" and colc: "int col < int c" using assms(1,9) by simp_all
  have fw: "frameW g = \<lfloor>real imgW / real_of_int (int c)\<rfloor>" using assms(3) by simp
  note x = axis_inside [OF c1 fw assms(4) assms(7) colc]
  note y = axis_inside [OF assms(2) assms(5) assms(6) assms(8) assms(10)]
  have geo: "0 < width (cellRegion g row col) \<and> 0 < height (cellRegion g row col)
     \<and> 0 \<le> left (cellRegion g row col) \<and> 0 \<le> top (cellRegion g row col)
     \<and> left (cellRegion g row col) + width (cellRegion g row col) \<le> int imgW
     \<and> top (cellRegion g row col) + height (cellRegion g row col) \<le> int imgH"
    using x y by (simp add: cellRegion_def)
  then have "sharpExtract imgW imgH (cellRegion g row col)
         = Inr \<lparr>bufWidth = nat (width (cellRegion g row col)),
                bufHeight = nat (height (cellRegion g row col)),
                origin = SheetRegion (left (cellRegion g row col)) (top (cellRegion g row col))
                           (width (cellRegion g row col)) (height (cellRegion g row col))\<rparr>"
    by (simp add: sharpExtract_def)
  with geo show ?thesis by simp
qed

lemma sliceGeometry_256:
  "sliceGeometry 256 256
      \<lparr>numFrames = 4, outputW = 128, outputH = 128, cols = 2, rows = 2, frameAR = Finite 1\<rparr>
     = ([], \<lparr>detectedRows = Finite 2, actualRows = 2, frameW = 128, frameH = 128,
             insetX = 4, insetY = 4\<rparr>)"
  by (simp add: sliceGeometry_def mathRound_def Let_def round64_numeral)

theorem cell_region_inside_witness:
  "cellRegion (snd (sliceGeometry 256 256
      \<lparr>numFrames = 4, outputW = 128, outputH = 128, cols = 2, rows = 2, frameAR = Finite 1\<rparr>)) 1 1
     = \<lparr>left = 132, top = 132, width = 120, height = 120\<rparr>
   \<and> sharpExtract 256 256 \<lparr>left = 132, top = 132, width = 120, height = 120\<rparr>
     = Inr \<lparr>bufWidth = 120, bufHeight = 120, origin = SheetRegion 132 132 120 120\<rparr>"
proof -
  let ?g = "\<lparr>detectedRows = Finite 2, actualRows = 2, frameW = 128, frameH = 128,
             insetX = 4, insetY = 4\<rparr>"
  have reg: "cellRegion ?g 1 1 = \<lparr>left = 132, top = 132, width = 120, height = 120\<rparr>"
    by (simp add: cellRegion_def)
  have h: "(1::nat) \<le> 2" "1 \<le> actualRows ?g"
    "frameW ?g = \<lfloor>real (256::nat) / real (2::nat)\<rfloor>" "3 \<le> frameW ?g"
    "frameH ?g = \<lfloor>real (256::nat) / real_of_int (actualRows ?g)\<rfloor>" "3 \<le> frameH ?g"
    "insetX ?g = max 1 (mathRound (real_of_int (frameW ?g) * 0.03))"
    "insetY ?g = max 1 (mathRound (real_of_int (frameH ?g) * 0.03))"
    "(1::nat) < 2" "int 1 < actualRows ?g"
    by (simp_all add: mathRound_def)
  from cell_region_inside [OF h]
  have "sharpExtract 256 256 (cellRegion ?g 1 1)
     = Inr \<lparr>bufWidth = nat (width (cellRegion ?g 1 1)),
            bufHeight = nat (height (cellRegion ?g 1 1)),
            origin = SheetRegion (left (cellRegion ?g 1 1)) (top (cellRegion ?g 1 1))
                       (width (cellRegion ?g 1 1)) (height (cellRegion ?g 1 1))\<rparr>"
    by simp
  then have ex: "sharpExtract 256 256 \<lparr>left = 132, top = 132, width = 120, height = 120\<rparr>
     = Inr \<lparr>bufWidth = 120, bufHeight = 120, origin = SheetRegion 132 132 120 120\<rparr>"
    unfolding reg by simp
  from reg ex show ?thesis by (simp add: sliceGeometry_256)
qed

subsection \<open>The extraction loops\<close>

declare colLoop.simps [simp del] rowLoop.simps [simp del]

lemma colLoop_Inr:
  "colLoop cell opts row col frames = Inr out \<Longrightarrow>
     \<exists>new. out = frames @ new
        \<and> map Inr new = take (numFrames opts - length frames)
                             (map (cell row) [col ..< GenerateOpts.cols opts])"
proof (induction cell opts row col frames rule: colLoop.induct)
  case (1 cell opts row col frames)
  show ?case
  proof (cases "col < GenerateOpts.cols opts \<and> length frames < numFrames opts")
    case False
    have "out = frames"
      using "1.prems" False by (subst (asm) colLoop.simps) simp
    moreover have "take (numFrames opts - length frames)
                     (map (cell row) [col ..< GenerateOpts.cols opts]) = []"
      using False by auto
    ultimately show ?thesis by simp
  next
    case True
    from "1.prems" True obtain frame where c: "cell row col = Inr frame"
        and rest: "colLoop cell opts row (col + 1) (frames @ [frame]) = Inr out"
      by (subst (asm) colLoop.simps) (auto split: sum.splits)
    from "1.IH" [OF True c rest] obtain new' where out: "out = (frames @ [frame]) @ new'"
        and new': "map Inr new' = take (numFrames opts - length (frames @ [frame]))
                             (map (cell row) [col + 1 ..< GenerateOpts.cols opts])"
      by blast
    from True have "col < GenerateOpts.cols opts" by (rule conjunct1)
    then have upt: "[col ..< GenerateOpts.cols opts] = col # [col + 1 ..< GenerateOpts.cols opts]"
      by (simp add: upt_conv_Cons)
    from True have lt: "length frames < numFrames opts" by (rule conjunct2)
    have k: "numFrames opts - length frames = Suc (numFrames opts - length (frames @ [frame]))"
      using lt by simp
    have "map Inr (frame # new') = take (numFrames opts - length frames)
                             (map (cell row) [col ..< GenerateOpts.cols opts])"
      unfolding upt k using c new' by simp
    moreover have "out = frames @ (frame # new')" using out by simp
    ultimately show ?thesis by blast
  qed
qed

lemma rowLoop_Inr:
  "rowLoop cell opts rowCount row frames = Inr out \<Longrightarrow>
     \<exists>new. out = frames @ new
        \<and> map Inr new = take (numFrames opts - length frames)
             (concat (map (\<lambda>r. map (cell r) [0 ..< GenerateOpts.cols opts]) [row ..< nat rowCount]))"
proof (induction cell opts rowCount row frames rule: rowLoop.induct)
  case (1 cell opts rowCount row frames)
  let ?C = "GenerateOpts.cols opts"
  let ?N = "numFrames opts"
  show ?case
  proof (cases "int row < rowCount \<and> length frames < ?N")
    case False
    have "out = frames"
      using "1.prems" False by (subst (asm) rowLoop.simps) simp
    moreover have "take (?N - length frames)
             (concat (map (\<lambda>r. map (cell r) [0 ..< ?C]) [row ..< nat rowCount])) = []"
      using False by auto
    ultimately show ?thesis by simp
  next
    case True
    from "1.prems" True obtain frames' where c: "colLoop cell opts row 0 frames = Inr frames'"
        and rest: "rowLoop cell opts rowCount (row + 1) frames' = Inr out"
      by (subst (asm) rowLoop.simps) (auto split: sum.splits)
    from colLoop_Inr [OF c] obtain n1 where f': "frames' = frames @ n1"
        and n1: "map Inr n1 = take (?N - length frames) (map (cell row) [0 ..< ?C])"
      by blast
    from "1.IH" [OF True c rest] obtain n2 where out: "out = frames' @ n2"
        and n2: "map Inr n2 = take (?N - length frames')
             (concat (map (\<lambda>r. map (cell r) [0 ..< ?C]) [row + 1 ..< nat rowCount]))"
      by blast
    have "length (map Inr n1 :: (error + buffer) list) = min (?N - length frames) ?C"
      unfolding n1 by simp
    then have len1: "length n1 = min (?N - length frames) ?C" by simp
    have k: "?N - length frames' = (?N - length frames) - ?C"
      unfolding f' using len1 by (simp add: min_def)
    from True have "int row < rowCount" by (rule conjunct1)
    then have "row < nat rowCount" by linarith
    then have upt: "[row ..< nat rowCount] = row # [row + 1 ..< nat rowCount]"
      by (simp add: upt_conv_Cons)
    have "map Inr (n1 @ n2) = take (?N - length frames)
             (concat (map (\<lambda>r. map (cell r) [0 ..< ?C]) [row ..< nat rowCount]))"
      unfolding upt using n1 n2 k by simp
    moreover have "out = frames @ (n1 @ n2)" using out f' by simp
    ultimately show ?thesis by blast
  qed
qed

lemma length_concat_rows:
  "length (concat (map (\<lambda>r. map (f r) [0 ..< c]) rs)) = length rs * c"
  by (induction rs) simp_all

lemma concat_rows_nth:
  "i < length rs * c \<Longrightarrow>
     concat (map (\<lambda>r. map (f r) [0 ..< c]) rs) ! i = f (rs ! (i div c)) (i mod c)"
proof (induction rs arbitrary: i)
  case Nil
  then show ?case by simp
next
  case (Cons r rs)
  show ?case
  proof (cases "i < c")
    case True
    then show ?thesis by (simp add: nth_append)
  next
    case False
    then have ge: "c \<le> i" by simp
    from Cons.prems have c0: "0 < c" by (cases c) simp_all
    from Cons.prems ge have lt: "i - c < length rs * c" by simp
    have d: "i div c = Suc ((i - c) div c)" using c0 ge by (rule le_div_geq)
    have m: "i mod c = (i - c) mod c" using ge by (rule le_mod_geq)
    have "concat (map (\<lambda>r. map (f r) [0 ..< c]) (r # rs)) ! i
            = concat (map (\<lambda>r. map (f r) [0 ..< c]) rs) ! (i - c)"
      using False by (simp add: nth_append)
    also have "\<dots> = f (rs ! ((i - c) div c)) ((i - c) mod c)"
      by (rule Cons.IH [OF lt])
    also have "\<dots> = f ((r # rs) ! (i div c)) (i mod c)"
      unfolding d m by simp
    finally show ?thesis .
  qed
qed

text \<open>
  The frames of the loops, by index: as many as requested or as the grid has cells,
  whichever is less, and frame \<open>i\<close> is the result of the body for row \<open>i div cols\<close> and
  column \<open>i mod cols\<close>.
\<close>

lemma rowLoop_frames:
  assumes "rowLoop cell opts rowCount 0 [] = Inr frames"
  shows "length frames = min (numFrames opts) (nat rowCount * GenerateOpts.cols opts)"
    and "i < length frames \<Longrightarrow>
           cell (i div GenerateOpts.cols opts) (i mod GenerateOpts.cols opts) = Inr (frames ! i)"
proof -
  let ?C = "GenerateOpts.cols opts"
  let ?cells = "concat (map (\<lambda>r. map (cell r) [0 ..< ?C]) [0 ..< nat rowCount])"
  from rowLoop_Inr [OF assms] have m: "map Inr frames = take (numFrames opts) ?cells"
    by simp
  have "length (map Inr frames :: (error + buffer) list)
          = min (numFrames opts) (nat rowCount * ?C)"
    unfolding m by (simp add: length_concat_rows min.commute)
  then show len: "length frames = min (numFrames opts) (nat rowCount * ?C)" by simp
  show "cell (i div ?C) (i mod ?C) = Inr (frames ! i)" if "i < length frames"
  proof -
    from that len have iN: "i < numFrames opts" and iG: "i < nat rowCount * ?C" by simp_all
    then have c0: "0 < ?C" by (cases ?C) simp_all
    have r: "i div ?C < nat rowCount"
      using iG c0 by (simp add: less_mult_imp_div_less)
    have "Inr (frames ! i) = (map Inr frames :: (error + buffer) list) ! i"
      using that by simp
    also have "\<dots> = ?cells ! i" unfolding m using iN by simp
    also have "\<dots> = cell ([0 ..< nat rowCount] ! (i div ?C)) (i mod ?C)"
      using iG by (simp add: concat_rows_nth)
    also have "\<dots> = cell (i div ?C) (i mod ?C)" using r by simp
    finally show ?thesis by simp
  qed
qed

lemma geminiCell_Inr:
  "geminiCell imgW imgH g opts row col = Inr b \<Longrightarrow>
     b = \<lparr>bufWidth = outputW opts, bufHeight = outputH opts,
          origin = Resize cover (regionSource (cellRegion g row col))\<rparr>"
  by (auto simp: geminiCell_def sharpExtract_def sharpResize_def regionSource_def
           split: if_splits sum.splits)

lemma rawCell_Inr:
  "rawCell imgW imgH g row col = Inr b \<Longrightarrow> b = extracted (cellRegion g row col)"
  by (auto simp: rawCell_def sharpExtract_def extracted_def regionSource_def split: if_splits)

subsection \<open>A row count that is not finite\<close>

lemma infinite_rows_cols:
  assumes "detectedRows (snd (sliceGeometry imgW imgH opts)) = PosInf"
  shows "0 < GenerateOpts.cols opts"
proof (rule ccontr)
  assume "\<not> 0 < GenerateOpts.cols opts"
  then have c: "GenerateOpts.cols opts = 0" by simp
  have "detectedRows (snd (sliceGeometry imgW imgH opts)) \<noteq> PosInf"
    by (cases "frameAR opts") (simp_all add: sliceGeometry_def Let_def c infinityOf_def)
  with assms show False by contradiction
qed

lemma infinite_rows_geometry:
  assumes "g = snd (sliceGeometry imgW imgH opts)" and "detectedRows g = PosInf"
  shows "actualRows g = 0" and "frameH g = 0" and "insetY g = 1"
proof -
  define d where "d = detectedRows g"
  have g: "g = \<lparr>detectedRows = d,
      actualRows = (if d \<noteq> Finite (real (GenerateOpts.rows opts))
                    then (case d of Finite x \<Rightarrow> \<lfloor>x\<rfloor> | _ \<Rightarrow> 0)
                    else int (GenerateOpts.rows opts)),
      frameW = frameW g, frameH = frameH g, insetX = insetX g, insetY = insetY g\<rparr>"
    unfolding d_def assms(1) sliceGeometry_def Let_def by simp
  have dp: "d = PosInf" unfolding d_def by (rule assms(2))
  have "actualRows g = (if d \<noteq> Finite (real (GenerateOpts.rows opts))
                    then (case d of Finite x \<Rightarrow> \<lfloor>x\<rfloor> | _ \<Rightarrow> 0)
                    else int (GenerateOpts.rows opts))"
    by (subst g) simp
  then show a: "actualRows g = 0" unfolding dp by simp
  have fh: "frameH g = (if actualRows g = 0 then 0
                        else \<lfloor>real imgH / real_of_int (actualRows g)\<rfloor>)"
    unfolding assms(1) sliceGeometry_def Let_def by simp
  then show f: "frameH g = 0" unfolding a by simp
  have "insetY g = max 1 (mathRound (real_of_int (frameH g) * 0.03))"
    unfolding assms(1) sliceGeometry_def Let_def by simp
  then show "insetY g = 1" unfolding f by (simp add: mathRound_def)
qed

lemma extract_fails:
  assumes "frameH g = 0" and "insetY g = 1"
  shows "sharpExtract imgW imgH (cellRegion g row col)
           = Inl (SharpError ''extract_area: bad extract area'')"
  using assms by (simp add: sharpExtract_def cellRegion_def)

lemma colLoop_first_fails:
  assumes "cell 0 0 = Inl e" and "0 < GenerateOpts.cols opts"
  shows "colLoop cell opts 0 0 [] = (if numFrames opts = 0 then Inr [] else Inl e)"
  using assms by (subst colLoop.simps) simp

text \<open>
  With \<^verbatim>\<open>Infinity\<close> rows the first pass of the row loop ends the run: with no frame,
  or with the exception of the first \<^verbatim>\<open>extract\<close>.
\<close>

lemma infinite_rows_first_pass:
  assumes "g = snd (sliceGeometry imgW imgH opts)" and "detectedRows g = PosInf"
  shows "colLoop (geminiCell imgW imgH g opts) opts 0 0 []
           = (if numFrames opts = 0 then Inr []
              else Inl (SharpError ''extract_area: bad extract area''))"
    and "colLoop (rawCell imgW imgH g) opts 0 0 []
           = (if numFrames opts = 0 then Inr []
              else Inl (SharpError ''extract_area: bad extract area''))"
proof -
  note geo = infinite_rows_geometry [OF assms]
  have c: "0 < GenerateOpts.cols opts"
    using assms(2) unfolding assms(1) by (rule infinite_rows_cols)
  have x: "sharpExtract imgW imgH (cellRegion g 0 0)
             = Inl (SharpError ''extract_area: bad extract area'')"
    using geo(2,3) by (rule extract_fails)
  have "geminiCell imgW imgH g opts 0 0 = Inl (SharpError ''extract_area: bad extract area'')"
    unfolding geminiCell_def x by simp
  then show "colLoop (geminiCell imgW imgH g opts) opts 0 0 []
           = (if numFrames opts = 0 then Inr []
              else Inl (SharpError ''extract_area: bad extract area''))"
    using c by (rule colLoop_first_fails)
  have "rawCell imgW imgH g 0 0 = Inl (SharpError ''extract_area: bad extract area'')"
    unfolding rawCell_def by (rule x)
  then show "colLoop (rawCell imgW imgH g) opts 0 0 []
           = (if numFrames opts = 0 then Inr []
              else Inl (SharpError ''extract_area: bad extract area''))"
    using c by (rule colLoop_first_fails)
qed

text \<open>The frames of both loops for the geometry of the slicer, by index.\<close>

lemma extractLoops_frames:
  assumes "extractLoops cell opts g = Inr frames"
    and "g = snd (sliceGeometry imgW imgH opts)"
    and "cell = geminiCell imgW imgH g opts \<or> cell = rawCell imgW imgH g"
  shows "length frames = min (numFrames opts) (nat (actualRows g) * GenerateOpts.cols opts)"
    and "i < length frames \<Longrightarrow>
           cell (i div GenerateOpts.cols opts) (i mod GenerateOpts.cols opts) = Inr (frames ! i)"
proof -
  have "length frames = min (numFrames opts) (nat (actualRows g) * GenerateOpts.cols opts)
     \<and> (i < length frames \<longrightarrow>
           cell (i div GenerateOpts.cols opts) (i mod GenerateOpts.cols opts) = Inr (frames ! i))"
  proof (cases "detectedRows g = PosInf")
    case True
    from assms(1) True have col: "colLoop cell opts 0 0 [] = Inr frames"
      by (simp add: extractLoops_def)
    have "colLoop cell opts 0 0 []
           = (if numFrames opts = 0 then Inr []
              else Inl (SharpError ''extract_area: bad extract area''))"
      using assms(3) infinite_rows_first_pass [OF assms(2) True] by blast
    with col have n0: "numFrames opts = 0" and f0: "frames = []"
      by (simp_all split: if_splits)
    then show ?thesis by simp
  next
    case False
    with assms(1) have loop: "rowLoop cell opts (actualRows g) 0 [] = Inr frames"
      by (simp add: extractLoops_def)
    from rowLoop_frames [OF loop] show ?thesis by blast
  qed
  then show "length frames = min (numFrames opts) (nat (actualRows g) * GenerateOpts.cols opts)"
    and "i < length frames \<Longrightarrow>
           cell (i div GenerateOpts.cols opts) (i mod GenerateOpts.cols opts) = Inr (frames ! i)"
    by blast+
qed

text \<open>
  With no row to extract the loops end at once, whatever the body: the cell geometry is
  not read.
\<close>

lemma no_rows_no_cell:
  assumes "actualRows g \<le> 0" and "detectedRows g \<noteq> PosInf"
  shows "extractLoops cell opts g = Inr []"
  using assms by (simp add: extractLoops_def rowLoop.simps)

subsection \<open>Trimming and re-centring\<close>

lemma trimLoop_trimmed:
  "trimmed (trimLoop trimSize raws st) =
     trimmed st @ map (\<lambda>raw. \<lparr>data = sharpTrim trimSize raw,
                              trimmedCell.width = fst (trimSize raw),
                              trimmedCell.height = snd (trimSize raw)\<rparr>) raws"
  by (induction raws arbitrary: st) (simp_all add: Let_def sharpTrim_def)

lemma trimLoop_maxW:
  "maxTrimW st \<le> maxTrimW (trimLoop trimSize raws st)
   \<and> (\<forall>raw \<in> set raws. fst (trimSize raw) \<le> maxTrimW (trimLoop trimSize raws st))
   \<and> (maxTrimW (trimLoop trimSize raws st) = maxTrimW st
       \<or> (\<exists>raw \<in> set raws. maxTrimW (trimLoop trimSize raws st) = fst (trimSize raw)))"
proof (induction raws arbitrary: st)
  case Nil
  show ?case by simp
next
  case (Cons raw raws)
  let ?st' = "\<lparr>trimmed = trimmed st
              @ [\<lparr>data = sharpTrim trimSize raw,
                  trimmedCell.width = bufWidth (sharpTrim trimSize raw),
                  trimmedCell.height = bufHeight (sharpTrim trimSize raw)\<rparr>],
            maxTrimW = max (maxTrimW st) (bufWidth (sharpTrim trimSize raw)),
            maxTrimH = max (maxTrimH st) (bufHeight (sharpTrim trimSize raw))\<rparr>"
  have eq: "trimLoop trimSize (raw # raws) st = trimLoop trimSize raws ?st'"
    by (simp add: Let_def)
  have m: "maxTrimW ?st' = max (maxTrimW st) (fst (trimSize raw))"
    by (simp add: sharpTrim_def)
  from Cons.IH [of ?st'] show ?case
    unfolding eq m by (auto simp: max_def split: if_splits)
qed

lemma trimLoop_maxH:
  "maxTrimH st \<le> maxTrimH (trimLoop trimSize raws st)
   \<and> (\<forall>raw \<in> set raws. snd (trimSize raw) \<le> maxTrimH (trimLoop trimSize raws st))
   \<and> (maxTrimH (trimLoop trimSize raws st) = maxTrimH st
       \<or> (\<exists>raw \<in> set raws. maxTrimH (trimLoop trimSize raws st) = snd (trimSize raw)))"
proof (induction raws arbitrary: st)
  case Nil
  show ?case by simp
next
  case (Cons raw raws)
  let ?st' = "\<lparr>trimmed = trimmed st
              @ [\<lparr>data = sharpTrim trimSize raw,
                  trimmedCell.width = bufWidth (sharpTrim trimSize raw),
                  trimmedCell.height = bufHeight (sharpTrim trimSize raw)\<rparr>],
            maxTrimW = max (maxTrimW st) (bufWidth (sharpTrim trimSize raw)),
            maxTrimH = max (maxTrimH st) (bufHeight (sharpTrim trimSize raw))\<rparr>"
  have eq: "trimLoop trimSize (raw # raws) st = trimLoop trimSize raws ?st'"
    by (simp add: Let_def)
  have m: "maxTrimH ?st' = max (maxTrimH st) (snd (trimSize raw))"
    by (simp add: sharpTrim_def)
  from Cons.IH [of ?st'] show ?case
    unfolding eq m by (auto simp: max_def split: if_splits)
qed

lemma Max_of_bound:
  fixes m :: nat
  assumes "xs \<noteq> []" and "\<forall>x \<in> set xs. f x \<le> m" and "m = 0 \<or> (\<exists>x \<in> set xs. m = f x)"
  shows "m = Max (set (map f xs))"
proof -
  have mem: "m \<in> set (map f xs)"
  proof (cases "\<exists>x \<in> set xs. m = f x")
    case True
    then show ?thesis by auto
  next
    case False
    with assms(3) have m0: "m = 0" by simp
    from assms(1) obtain x where x: "x \<in> set xs" by (cases xs) auto
    with assms(2) m0 have "f x = m" by simp
    with x show ?thesis by force
  qed
  have "Max (set (map f xs)) = m"
  proof (rule Max_eqI)
    show "finite (set (map f xs))" by simp
    show "y \<le> m" if "y \<in> set (map f xs)" for y using that assms(2) by auto
    show "m \<in> set (map f xs)" by (rule mem)
  qed
  then show ?thesis by simp
qed

lemma half_below:
  fixes x :: real
  assumes "0 \<le> x"
  shows "x / 2 + 1 / 2 < x + 1"
  using assms by linarith

lemma center_bounds:
  fixes W w :: nat
  assumes "w \<le> W"
  shows "0 \<le> mathRound ((real W - real w) / 2)"
    and "mathRound ((real W - real w) / 2) + int w \<le> int W"
proof -
  have d: "0 \<le> real W - real w" using assms by simp
  then show "0 \<le> mathRound ((real W - real w) / 2)"
    unfolding mathRound_def by (simp add: zero_le_floor)
  have e: "real_of_int (int W - int w) = real W - real w" by simp
  have "(real W - real w) / 2 + 1 / 2 < real_of_int (int W - int w) + 1"
    unfolding e using d by (rule half_below)
  then have "mathRound ((real W - real w) / 2) \<le> int W - int w"
    unfolding mathRound_def by (simp only: floor_le_iff)
  then show "mathRound ((real W - real w) / 2) + int w \<le> int W" by simp
qed

lemma centerLoop_Inr:
  "centerLoop opts maxW maxH ts frames = Inr out \<Longrightarrow>
     out = frames @ map (\<lambda>t. \<lparr>bufWidth = outputW opts, bufHeight = outputH opts,
                               origin = Resize contain (origin (composited maxW maxH t))\<rparr>) ts"
proof (induction ts arbitrary: frames)
  case Nil
  then show ?case by simp
next
  case (Cons t ts)
  from Cons.prems obtain frame where
      f: "sharpResize (outputW opts) (outputH opts) contain (origin (composited maxW maxH t))
            = Inr frame"
      and rest: "centerLoop opts maxW maxH ts (frames @ [frame]) = Inr out"
    by (auto split: sum.splits)
  from f have "frame = \<lparr>bufWidth = outputW opts, bufHeight = outputH opts,
                         origin = Resize contain (origin (composited maxW maxH t))\<rparr>"
    by (auto simp: sharpResize_def split: if_splits)
  with Cons.IH [OF rest] show ?case by simp
qed

lemma sliceFrames_Inr:
  assumes "sliceFrames imgW imgH opts = (warns, Inr frames)"
    and "g = snd (sliceGeometry imgW imgH opts)"
  shows "length frames = min (numFrames opts) (nat (actualRows g) * GenerateOpts.cols opts)"
    and "i < length frames \<Longrightarrow>
           frames ! i = \<lparr>bufWidth = outputW opts, bufHeight = outputH opts,
              origin = Resize cover (regionSource
                (cellRegion g (i div GenerateOpts.cols opts) (i mod GenerateOpts.cols opts)))\<rparr>"
proof -
  from assms have loop: "extractLoops (geminiCell imgW imgH g opts) opts g = Inr frames"
    by (simp add: sliceFrames_def split: prod.splits)
  note fr = extractLoops_frames [OF loop assms(2) disjI1 [OF refl]]
  show "length frames = min (numFrames opts) (nat (actualRows g) * GenerateOpts.cols opts)"
    by (rule fr(1))
  show "frames ! i = \<lparr>bufWidth = outputW opts, bufHeight = outputH opts,
              origin = Resize cover (regionSource
                (cellRegion g (i div GenerateOpts.cols opts) (i mod GenerateOpts.cols opts)))\<rparr>"
    if "i < length frames"
    by (rule geminiCell_Inr [OF fr(2) [OF that]])
qed

text \<open>
  The older variant: the extracted cells \<open>raws\<close>, and every frame as the composite of the
  trimmed cell on the canvas of the final trimming state.
\<close>

lemma legacyFrames_Inr:
  assumes "legacyFrames trimSize imgW imgH opts = (warns, Inr frames)"
    and "g = snd (sliceGeometry imgW imgH opts)"
  shows "\<exists>raws. length raws = length frames
     \<and> length frames = min (numFrames opts) (nat (actualRows g) * GenerateOpts.cols opts)
     \<and> (\<forall>i < length frames.
           raws ! i = extracted
             (cellRegion g (i div GenerateOpts.cols opts) (i mod GenerateOpts.cols opts)))
     \<and> frames = map (\<lambda>raw. \<lparr>bufWidth = outputW opts, bufHeight = outputH opts,
           origin = Resize contain (origin (composited
              (maxTrimW (trimLoop trimSize raws \<lparr>trimmed = [], maxTrimW = 0, maxTrimH = 0\<rparr>))
              (maxTrimH (trimLoop trimSize raws \<lparr>trimmed = [], maxTrimW = 0, maxTrimH = 0\<rparr>))
              \<lparr>data = sharpTrim trimSize raw, trimmedCell.width = fst (trimSize raw),
               trimmedCell.height = snd (trimSize raw)\<rparr>))\<rparr>) raws"
proof -
  let ?init = "\<lparr>trimmed = [], maxTrimW = 0, maxTrimH = 0\<rparr>"
  from assms obtain raws where
      loop: "extractLoops (rawCell imgW imgH g) opts g = Inr raws"
      and center: "centerLoop opts (maxTrimW (trimLoop trimSize raws ?init))
                     (maxTrimH (trimLoop trimSize raws ?init))
                     (trimmed (trimLoop trimSize raws ?init)) [] = Inr frames"
    by (auto simp: legacyFrames_def Let_def split: prod.splits sum.splits)
  let ?st = "trimLoop trimSize raws ?init"
  let ?cell = "\<lambda>raw. \<lparr>data = sharpTrim trimSize raw,
                        trimmedCell.width = fst (trimSize raw),
                        trimmedCell.height = snd (trimSize raw)\<rparr>"
  let ?frame = "\<lambda>t. \<lparr>bufWidth = outputW opts, bufHeight = outputH opts,
                    origin = Resize contain (origin (composited (maxTrimW ?st) (maxTrimH ?st) t))\<rparr>"
  note fr = extractLoops_frames [OF loop assms(2) disjI2 [OF refl]]
  have tr: "trimmed ?st = map ?cell raws" by (simp add: trimLoop_trimmed)
  from centerLoop_Inr [OF center] have f: "frames = map (\<lambda>raw. ?frame (?cell raw)) raws"
    unfolding tr by simp
  then have len: "length raws = length frames" by simp
  have cnt: "length frames = min (numFrames opts) (nat (actualRows g) * GenerateOpts.cols opts)"
    unfolding len [symmetric] by (rule fr(1))
  have each: "\<forall>i < length frames. raws ! i = extracted
             (cellRegion g (i div GenerateOpts.cols opts) (i mod GenerateOpts.cols opts))"
  proof (intro allI impI)
    fix i
    assume "i < length frames"
    then have i: "i < length raws" by (simp only: len)
    show "raws ! i = extracted
             (cellRegion g (i div GenerateOpts.cols opts) (i mod GenerateOpts.cols opts))"
      by (rule rawCell_Inr [OF fr(2) [OF i]])
  qed
  from len cnt each f show ?thesis by blast
qed

lemma legacyFrames_nth:
  assumes "legacyFrames trimSize imgW imgH opts = (warns, Inr frames)"
    and "g = snd (sliceGeometry imgW imgH opts)"
    and "i < length frames"
  shows "bufWidth (frames ! i) = outputW opts \<and> bufHeight (frames ! i) = outputH opts
     \<and> (\<exists>w h l t. origin (frames ! i)
            = Resize contain (Canvas w h (RGBA 255 255 255 1) (Trim (regionSource
                (cellRegion g (i div GenerateOpts.cols opts) (i mod GenerateOpts.cols opts)))) l t))"
proof -
  let ?init = "\<lparr>trimmed = [], maxTrimW = 0, maxTrimH = 0\<rparr>"
  from legacyFrames_Inr [OF assms(1,2)] obtain raws where
      len: "length raws = length frames"
      and raw: "\<forall>i < length frames. raws ! i = extracted
             (cellRegion g (i div GenerateOpts.cols opts) (i mod GenerateOpts.cols opts))"
      and fr: "frames = map (\<lambda>raw. \<lparr>bufWidth = outputW opts, bufHeight = outputH opts,
           origin = Resize contain (origin (composited
              (maxTrimW (trimLoop trimSize raws ?init)) (maxTrimH (trimLoop trimSize raws ?init))
              \<lparr>data = sharpTrim trimSize raw, trimmedCell.width = fst (trimSize raw),
               trimmedCell.height = snd (trimSize raw)\<rparr>))\<rparr>) raws"
    by blast
  from assms(3) have ir: "i < length raws" by (simp only: len)
  from raw assms(3) have r: "raws ! i = extracted
             (cellRegion g (i div GenerateOpts.cols opts) (i mod GenerateOpts.cols opts))"
    by blast
  have "frames ! i = \<lparr>bufWidth = outputW opts, bufHeight = outputH opts,
           origin = Resize contain (origin (composited
              (maxTrimW (trimLoop trimSize raws ?init)) (maxTrimH (trimLoop trimSize raws ?init))
              \<lparr>data = sharpTrim trimSize (raws ! i),
               trimmedCell.width = fst (trimSize (raws ! i)),
               trimmedCell.height = snd (trimSize (raws ! i))\<rparr>))\<rparr>"
    by (subst fr) (simp add: ir)
  then show ?thesis
    by (simp add: composited_def sharpTrim_def r extracted_def)
qed

lemma legacyFrames_length:
  assumes "legacyFrames trimSize imgW imgH opts = (warns, Inr frames)"
    and "g = snd (sliceGeometry imgW imgH opts)"
  shows "length frames = min (numFrames opts) (nat (actualRows g) * GenerateOpts.cols opts)"
  using legacyFrames_Inr [OF assms] by blast

subsection \<open>The output frame sequence\<close>

text \<open>
  C1, as the claim states it, fails on the procedural path: a script that prints five
  valid SVG strings when four frames are requested gives a run that completes with five
  frames.
\<close>

theorem output_count_counterexample:
  "generateClaude (\<lambda>svg. True)
      \<lparr>exitCode = Some 0, parsed = Some (JArray (replicate 5 (JString (sampleSvg))))\<rparr>
      \<lparr>numFrames = 4, outputW = 128, outputH = 128, cols = 2, rows = 2, frameAR = Finite 1\<rparr>
     = ([FrameCountWarning 5 4],
        Inr (replicate 5 \<lparr>bufWidth = 128, bufHeight = 128,
                            origin = Resize contain (SvgDoc (sampleSvg))\<rparr>))
   \<and> length (replicate 5 \<lparr>bufWidth = 128, bufHeight = 128,
                            origin = Resize contain (SvgDoc (sampleSvg))\<rparr>)
       \<noteq> numFrames \<lparr>numFrames = 4, outputW = 128, outputH = 128, cols = 2, rows = 2, frameAR = Finite 1\<rparr>"
proof -
  let ?vs = "replicate 5 (JString (sampleSvg))"
  let ?run = "\<lparr>exitCode = Some 0, parsed = Some (JArray ?vs)\<rparr>"
  let ?opts = "\<lparr>numFrames = 4, outputW = 128, outputH = 128, cols = 2, rows = 2, frameAR = Finite 1\<rparr>"
  have h: "exitCode ?run = Some 0" "parsed ?run = Some (JArray ?vs)" "?vs \<noteq> []" by simp_all
  have none: "checkFrames 0 ?vs = None"
    using sampleSvg_valid by (simp add: checkFrames_None)
  have ex: "executeFrameScript ?run ?opts
              = ([FrameCountWarning 5 4], Inr (replicate 5 (sampleSvg)))"
    by (simp add: executeFrameScript_array [OF h] none)
  have all: "\<forall>svg \<in> set (replicate 5 (sampleSvg)). (\<lambda>svg. True) svg" by simp
  have pos: "0 < outputW ?opts" "0 < outputH ?opts" by simp_all
  have "generateClaude (\<lambda>svg. True) ?run ?opts
     = ([FrameCountWarning 5 4],
        Inr (replicate 5 \<lparr>bufWidth = 128, bufHeight = 128,
                            origin = Resize contain (SvgDoc (sampleSvg))\<rparr>))"
    unfolding generateClaude_def ex by (simp add: svgFrames_ok [OF all pos])
  then show ?thesis by simp
qed

text \<open>
  C1, amended. For every run that completes, each output frame is exactly
  \<open>outputW\<close> by \<open>outputH\<close> pixels and the frames are in the order the raw elements were
  produced. On the procedural path there is one frame for each element of the JSON array,
  in the order of the array. On the grid path (in both variants) there are
  \<open>min(numFrames, cols * actualRows)\<close> frames, and frame \<open>i\<close> comes from the cell in row
  \<open>i div cols\<close> and column \<open>i mod cols\<close>.
\<close>

theorem output_frame_sequence:
  assumes "g = snd (sliceGeometry imgW imgH opts)"
  shows "(generateClaude renders run opts = (warns, Inr frames) \<longrightarrow>
           (\<exists>svgs. executeFrameScript run opts = (warns, Inr svgs)
              \<and> length frames = length svgs
              \<and> (\<forall>i < length frames.
                    frames ! i = \<lparr>bufWidth = outputW opts, bufHeight = outputH opts,
                                  origin = Resize contain (SvgDoc (svgs ! i))\<rparr>)))
     \<and> (sliceFrames imgW imgH opts = (warns, Inr frames) \<longrightarrow>
           length frames = min (numFrames opts) (nat (actualRows g) * GenerateOpts.cols opts)
           \<and> (\<forall>i < length frames.
                 frames ! i = \<lparr>bufWidth = outputW opts, bufHeight = outputH opts,
                   origin = Resize cover (regionSource (cellRegion g
                     (i div GenerateOpts.cols opts) (i mod GenerateOpts.cols opts)))\<rparr>))
     \<and> (legacyFrames trimSize imgW imgH opts = (warns, Inr frames) \<longrightarrow>
           length frames = min (numFrames opts) (nat (actualRows g) * GenerateOpts.cols opts)
           \<and> (\<forall>i < length frames.
                 bufWidth (frames ! i) = outputW opts \<and> bufHeight (frames ! i) = outputH opts
                 \<and> (\<exists>w h l t. origin (frames ! i)
                      = Resize contain (Canvas w h (RGBA 255 255 255 1) (Trim (regionSource
                          (cellRegion g (i div GenerateOpts.cols opts)
                             (i mod GenerateOpts.cols opts)))) l t))))"
proof (intro conjI impI)
  assume a: "generateClaude renders run opts = (warns, Inr frames)"
  from generateClaude_Inr [OF a] obtain svgs where
      ex: "executeFrameScript run opts = (warns, Inr svgs)"
      and fr: "frames = map (\<lambda>svg. \<lparr>bufWidth = outputW opts, bufHeight = outputH opts,
                                     origin = Resize contain (SvgDoc svg)\<rparr>) svgs"
    by blast
  from fr have "length frames = length svgs" by simp
  moreover from fr have "\<forall>i < length frames.
                    frames ! i = \<lparr>bufWidth = outputW opts, bufHeight = outputH opts,
                                  origin = Resize contain (SvgDoc (svgs ! i))\<rparr>"
    by simp
  ultimately show "\<exists>svgs. executeFrameScript run opts = (warns, Inr svgs)
              \<and> length frames = length svgs
              \<and> (\<forall>i < length frames.
                    frames ! i = \<lparr>bufWidth = outputW opts, bufHeight = outputH opts,
                                  origin = Resize contain (SvgDoc (svgs ! i))\<rparr>)"
    using ex by blast
next
  assume a: "sliceFrames imgW imgH opts = (warns, Inr frames)"
  show "length frames = min (numFrames opts) (nat (actualRows g) * GenerateOpts.cols opts)"
    by (rule sliceFrames_Inr(1) [OF a assms])
  show "\<forall>i < length frames.
                 frames ! i = \<lparr>bufWidth = outputW opts, bufHeight = outputH opts,
                   origin = Resize cover (regionSource (cellRegion g
                     (i div GenerateOpts.cols opts) (i mod GenerateOpts.cols opts)))\<rparr>"
    using sliceFrames_Inr(2) [OF a assms] by blast
next
  assume a: "legacyFrames trimSize imgW imgH opts = (warns, Inr frames)"
  show "length frames = min (numFrames opts) (nat (actualRows g) * GenerateOpts.cols opts)"
    by (rule legacyFrames_length [OF a assms])
  show "\<forall>i < length frames.
                 bufWidth (frames ! i) = outputW opts \<and> bufHeight (frames ! i) = outputH opts
                 \<and> (\<exists>w h l t. origin (frames ! i)
                      = Resize contain (Canvas w h (RGBA 255 255 255 1) (Trim (regionSource
                          (cellRegion g (i div GenerateOpts.cols opts)
                             (i mod GenerateOpts.cols opts)))) l t))"
    using legacyFrames_nth [OF a assms] by blast
qed

lemma sliceGeometry_256_128:
  "sliceGeometry 256 128
      \<lparr>numFrames = 4, outputW = 128, outputH = 128, cols = 2, rows = 2, frameAR = Finite 1\<rparr>
     = ([RowsWarning (Finite 1) 2],
        \<lparr>detectedRows = Finite 1, actualRows = 1, frameW = 128, frameH = 128,
         insetX = 4, insetY = 4\<rparr>)"
  by (simp add: sliceGeometry_def mathRound_def Let_def round64_numeral round64_one)

theorem output_frame_sequence_witness:
  "sliceFrames 256 128
      \<lparr>numFrames = 4, outputW = 128, outputH = 128, cols = 2, rows = 2, frameAR = Finite 1\<rparr>
     = ([RowsWarning (Finite 1) 2],
        Inr [\<lparr>bufWidth = 128, bufHeight = 128, origin = Resize cover (SheetRegion 4 4 120 120)\<rparr>,
             \<lparr>bufWidth = 128, bufHeight = 128,
              origin = Resize cover (SheetRegion 132 4 120 120)\<rparr>])
   \<and> actualRows (snd (sliceGeometry 256 128
        \<lparr>numFrames = 4, outputW = 128, outputH = 128, cols = 2, rows = 2, frameAR = Finite 1\<rparr>)) = 1
   \<and> length [\<lparr>bufWidth = 128, bufHeight = 128, origin = Resize cover (SheetRegion 4 4 120 120)\<rparr>,
             \<lparr>bufWidth = 128, bufHeight = 128,
              origin = Resize cover (SheetRegion 132 4 120 120)\<rparr>]
       = min (numFrames
                \<lparr>numFrames = 4, outputW = 128, outputH = 128, cols = 2, rows = 2, frameAR = Finite 1\<rparr>)
             (nat (actualRows (snd (sliceGeometry 256 128
                \<lparr>numFrames = 4, outputW = 128, outputH = 128, cols = 2, rows = 2, frameAR = Finite 1\<rparr>)))
              * GenerateOpts.cols
                \<lparr>numFrames = 4, outputW = 128, outputH = 128, cols = 2, rows = 2, frameAR = Finite 1\<rparr>)"
proof -
  let ?opts = "\<lparr>numFrames = 4, outputW = 128, outputH = 128, cols = 2, rows = 2, frameAR = Finite 1\<rparr>"
  let ?g = "\<lparr>detectedRows = Finite 1, actualRows = 1, frameW = 128, frameH = 128,
         insetX = 4, insetY = 4\<rparr>"
  let ?f1 = "\<lparr>bufWidth = 128, bufHeight = 128, origin = Resize cover (SheetRegion 4 4 120 120)\<rparr>"
  let ?f2 = "\<lparr>bufWidth = 128, bufHeight = 128, origin = Resize cover (SheetRegion 132 4 120 120)\<rparr>"
  have row0: "rowLoop (geminiCell 256 128 ?g ?opts) ?opts 1 0 [] = Inr [?f1, ?f2]"
    by (simp add: rowLoop.simps colLoop.simps geminiCell_def cellRegion_def
          sharpExtract_def sharpResize_def)
  have run: "sliceFrames 256 128 ?opts = ([RowsWarning (Finite 1) 2], Inr [?f1, ?f2])"
    by (simp add: sliceFrames_def extractLoops_def sliceGeometry_256_128 row0)
  have rows1: "actualRows (snd (sliceGeometry 256 128 ?opts)) = 1"
    by (simp add: sliceGeometry_256_128)
  have len: "length [?f1, ?f2]
       = min (numFrames ?opts)
             (nat (actualRows (snd (sliceGeometry 256 128 ?opts))) * GenerateOpts.cols ?opts)"
    by (rule output_frame_sequence
          [OF refl, THEN conjunct2, THEN conjunct1, THEN mp, OF run, THEN conjunct1])
  from run rows1 len show ?thesis by (intro conjI)
qed

subsection \<open>Drift detection\<close>

lemma sliceGeometry_cases:
  assumes "d = mathRound64 (divide64 (Finite (real imgH))
                 (divide64 (divide64 (Finite (real imgW)) (Finite (real (GenerateOpts.cols opts))))
                    (frameAR opts)))"
    and "a = (if d \<noteq> Finite (real (GenerateOpts.rows opts))
              then (case d of Finite x \<Rightarrow> \<lfloor>x\<rfloor> | _ \<Rightarrow> 0)
              else int (GenerateOpts.rows opts))"
    and "fH = (if a = 0 then 0 else \<lfloor>real imgH / real_of_int a\<rfloor>)"
  shows "sliceGeometry imgW imgH opts =
     ((if d \<noteq> Finite (real (GenerateOpts.rows opts))
       then [RowsWarning d (GenerateOpts.rows opts)] else []),
      \<lparr>detectedRows = d, actualRows = a,
       frameW = \<lfloor>real imgW / real (GenerateOpts.cols opts)\<rfloor>,
       frameH = fH,
       insetX = max 1 (mathRound (real_of_int \<lfloor>real imgW / real (GenerateOpts.cols opts)\<rfloor> * 0.03)),
       insetY = max 1 (mathRound (real_of_int fH * 0.03))\<rparr>)"
  unfolding assms sliceGeometry_def Let_def by (rule refl)

lemma sliceFrames_warnings:
  "fst (sliceFrames imgW imgH opts) = fst (sliceGeometry imgW imgH opts)"
  by (simp add: sliceFrames_def split: prod.splits)

lemma legacyFrames_warnings:
  "fst (legacyFrames trimSize imgW imgH opts) = fst (sliceGeometry imgW imgH opts)"
  by (simp add: legacyFrames_def split: prod.splits)

text \<open>
  The three rounded quotients against the exact ones: with \<open>u = 2 ^ -53\<close>, the computed
  cell height lies between \<open>E * (1 - u)\<^sup>2\<close> and \<open>E * (1 + u)\<^sup>2\<close> for the exact cell height
  \<open>E\<close>, and the last quotient adds one more factor.
\<close>

lemma scaled_quotient:
  fixes E E' H lo hi :: real
  assumes "0 < E" and "0 < E'" and "0 \<le> H" and "E * lo \<le> E'" and "E' \<le> E * hi"
  shows "(H / E') * lo \<le> H / E" and "H / E \<le> (H / E') * hi"
proof -
  define q where "q = H / E'"
  have q: "0 \<le> q" unfolding q_def using assms(2,3) by simp
  have e: "q * E' = H" unfolding q_def using assms(2) by simp
  have "q * (E * lo) \<le> q * E'" using assms(4) q by (rule mult_left_mono)
  moreover have "q * (E * lo) = q * lo * E" by (simp only: ac_simps)
  ultimately have "q * lo * E \<le> H" unfolding e by simp
  then have "q * lo \<le> H / E" using assms(1) by (simp only: pos_le_divide_eq)
  then show "(H / E') * lo \<le> H / E" unfolding q_def .
  have "q * E' \<le> q * (E * hi)" using assms(5) q by (rule mult_left_mono)
  moreover have "q * (E * hi) = q * hi * E" by (simp only: ac_simps)
  ultimately have "H \<le> q * hi * E" unfolding e by simp
  then have "H / E \<le> q * hi" using assms(1) by (simp only: pos_divide_le_eq)
  then show "H / E \<le> (H / E') * hi" unfolding q_def .
qed

lemma quotient_window:
  fixes q0 q' h k :: real
  assumes "q0 * ((1 - 1 / 2 ^ 53) * (1 - 1 / 2 ^ 53)) \<le> h"
    and "h \<le> q0 * ((1 + 1 / 2 ^ 53) * (1 + 1 / 2 ^ 53))"
    and "q0 * (1 - 1 / 2 ^ 53) \<le> q'" and "q' \<le> q0 * (1 + 1 / 2 ^ 53)"
    and "\<bar>h - k\<bar> \<le> 1 / 4" and "1 \<le> k" and "k \<le> 2 ^ 31"
  shows "k - 1 / 2 \<le> q'" and "q' < k + 1 / 2"
  using assms by (simp_all; linarith)+

lemma quotient_range:
  fixes q0 h k :: real
  assumes "q0 * ((1 - 1 / 2 ^ 53) * (1 - 1 / 2 ^ 53)) \<le> h"
    and "h \<le> q0 * ((1 + 1 / 2 ^ 53) * (1 + 1 / 2 ^ 53))"
    and "\<bar>h - k\<bar> \<le> 1 / 4" and "1 \<le> k" and "k \<le> 2 ^ 31"
  shows "1 / 2 \<le> q0" and "q0 \<le> 2 ^ 32"
  using assms by (simp_all; linarith)+

text \<open>
  An image whose height is within a quarter of a cell of \<open>k\<close> expected cell heights has
  \<open>k\<close> detected rows, for sizes up to \<open>2 ^ 31\<close> and a frame aspect between \<open>2 ^ -32\<close> and
  \<open>2 ^ 32\<close>.
\<close>

lemma drift_rows:
  fixes W C H k :: nat and a :: real
  assumes "0 < W" and "W \<le> 2 ^ 31" and "0 < C" and "C \<le> 2 ^ 31"
    and "1 / 2 ^ 32 \<le> a" and "a \<le> 2 ^ 32" and "0 < k" and "k \<le> 2 ^ 31"
    and "\<bar>real H - real k * ((real W / real C) / a)\<bar> \<le> ((real W / real C) / a) / 4"
  shows "mathRound64 (divide64 (Finite (real H))
           (divide64 (divide64 (Finite (real W)) (Finite (real C))) (Finite a)))
         = Finite (real k)"
proof -
  define w where "w = real W / real C"
  define E where "E = w / a"
  have W1: "1 \<le> real W" and Wh: "real W \<le> 2 ^ 31" using assms(1,2) by simp_all
  have C1: "1 \<le> real C" and Ch: "real C \<le> 2 ^ 31" using assms(3,4) by simp_all
  have a0: "0 < a"
  proof -
    have "(0::real) < 1 / 2 ^ 32" by simp
    from this assms(5) show ?thesis by (rule less_le_trans)
  qed
  have wlo: "1 / 2 ^ 31 \<le> w" unfolding w_def
    by (rule frac_le) (use W1 C1 Ch in simp_all)
  have "w \<le> 2 ^ 31 / 1" unfolding w_def
    by (rule frac_le) (use W1 Wh C1 in simp_all)
  then have whi: "w \<le> 2 ^ 31" by simp
  have w0: "0 < w"
  proof -
    have "(0::real) < 1 / 2 ^ 31" by simp
    from this wlo show ?thesis by (rule less_le_trans)
  qed
  have "1 / 2 ^ 100 \<le> w" using wlo by simp
  moreover have "w \<le> 2 ^ 100" using whi by simp
  ultimately obtain w' where w': "round64 w = Finite w'"
    and w'lo: "w * (1 - 1 / 2 ^ 53) \<le> w'" and w'hi: "w' \<le> w * (1 + 1 / 2 ^ 53)"
    using round64_rel by blast
  have expW: "divide64 (Finite (real W)) (Finite (real C)) = Finite w'"
    using assms(3) w' by (simp add: w_def)
  have w'1: "1 / 2 ^ 32 \<le> w'" using w'lo wlo by simp
  have w'2: "w' \<le> 2 ^ 32" using w'hi whi by simp
  have w'0: "0 < w'"
  proof -
    have "(0::real) < 1 / 2 ^ 32" by simp
    from this w'1 show ?thesis by (rule less_le_trans)
  qed
  have "(1 / 2 ^ 32) / 2 ^ 32 \<le> w' / a"
    by (rule frac_le) (use w'1 a0 assms(6) in simp_all)
  moreover have "(1::real) / 2 ^ 100 \<le> (1 / 2 ^ 32) / 2 ^ 32" by simp
  ultimately have e1: "1 / 2 ^ 100 \<le> w' / a" by (rule order_trans [rotated])
  have "w' / a \<le> 2 ^ 32 / (1 / 2 ^ 32)"
    by (rule frac_le) (use w'0 w'2 assms(5) in simp_all)
  moreover have "(2::real) ^ 32 / (1 / 2 ^ 32) \<le> 2 ^ 100" by simp
  ultimately have e2: "w' / a \<le> 2 ^ 100" by (rule order_trans)
  from e1 e2 obtain E' where E': "round64 (w' / a) = Finite E'"
    and E'lo: "w' / a * (1 - 1 / 2 ^ 53) \<le> E'" and E'hi: "E' \<le> w' / a * (1 + 1 / 2 ^ 53)"
    using round64_rel by blast
  have expH: "divide64 (Finite w') (Finite a) = Finite E'"
    using a0 E' by simp
  have E0: "0 < E" unfolding E_def using w0 a0 by simp
  have a1: "0 \<le> a" using a0 by (rule less_imp_le)
  have "w * (1 - 1 / 2 ^ 53) / a \<le> w' / a" using w'lo a1 by (rule divide_right_mono)
  moreover have "E * (1 - 1 / 2 ^ 53) = w * (1 - 1 / 2 ^ 53) / a"
    unfolding E_def by (rule times_divide_eq_left)
  ultimately have s1: "E * (1 - 1 / 2 ^ 53) \<le> w' / a" by (simp only:)
  have "w' / a \<le> w * (1 + 1 / 2 ^ 53) / a" using w'hi a1 by (rule divide_right_mono)
  moreover have "E * (1 + 1 / 2 ^ 53) = w * (1 + 1 / 2 ^ 53) / a"
    unfolding E_def by (rule times_divide_eq_left)
  ultimately have s2: "w' / a \<le> E * (1 + 1 / 2 ^ 53)" by (simp only:)
  have "E * (1 - 1 / 2 ^ 53) * (1 - 1 / 2 ^ 53) \<le> w' / a * (1 - 1 / 2 ^ 53)"
    using s1 by (rule mult_right_mono) simp
  with E'lo have Elo: "E * ((1 - 1 / 2 ^ 53) * (1 - 1 / 2 ^ 53)) \<le> E'"
    by (simp only: mult.assoc)
  have "w' / a * (1 + 1 / 2 ^ 53) \<le> E * (1 + 1 / 2 ^ 53) * (1 + 1 / 2 ^ 53)"
    using s2 by (rule mult_right_mono) simp
  with E'hi have Ehi: "E' \<le> E * ((1 + 1 / 2 ^ 53) * (1 + 1 / 2 ^ 53))"
    by (simp only: mult.assoc)
  have E'0: "0 < E'"
  proof -
    have "0 < E * ((1 - 1 / 2 ^ 53) * (1 - 1 / 2 ^ 53))" using E0 by simp
    from this Elo show ?thesis by (rule less_le_trans)
  qed
  define h where "h = real H / E"
  define q0 where "q0 = real H / E'"
  have H0: "0 \<le> real H" by simp
  note sq = scaled_quotient [OF E0 E'0 H0 Elo Ehi, folded h_def q0_def]
  have "\<bar>real H - real k * E\<bar> \<le> E / 4" using assms(9) by (simp only: E_def w_def)
  then have "\<bar>real H - real k * E\<bar> / E \<le> (E / 4) / E" using E0 by (simp add: divide_right_mono)
  moreover have "\<bar>real H - real k * E\<bar> / E = \<bar>h - real k\<bar>"
  proof -
    have "\<bar>real H - real k * E\<bar> / E = \<bar>(real H - real k * E) / E\<bar>" using E0 by simp
    also have "(real H - real k * E) / E = h - real k"
      using E0 by (simp add: h_def diff_divide_distrib)
    finally show ?thesis .
  qed
  moreover have "(E / 4) / E = 1 / 4" using E0 by simp
  ultimately have hk: "\<bar>h - real k\<bar> \<le> 1 / 4" by simp
  have k1: "1 \<le> real k" and k2: "real k \<le> 2 ^ 31" using assms(7,8) by simp_all
  have q0lo: "1 / 2 \<le> q0" and q0hi: "q0 \<le> 2 ^ 32"
    by (rule quotient_range [OF sq(1) sq(2) hk k1 k2])+
  have "1 / 2 ^ 100 \<le> q0" using q0lo by simp
  moreover have "q0 \<le> 2 ^ 100" using q0hi by simp
  ultimately obtain q' where q': "round64 q0 = Finite q'"
    and q'lo: "q0 * (1 - 1 / 2 ^ 53) \<le> q'" and q'hi: "q' \<le> q0 * (1 + 1 / 2 ^ 53)"
    using round64_rel by blast
  have quo: "divide64 (Finite (real H)) (Finite E') = Finite q'"
    using E'0 q' by (simp add: q0_def)
  note win = quotient_window [OF sq(1) sq(2) q'lo q'hi hk k1 k2]
  have "mathRound q' = int k"
    unfolding mathRound_def
  proof (rule floor_unique)
    show "real_of_int (int k) \<le> q' + 1 / 2" using win(1) by simp
    show "q' + 1 / 2 < real_of_int (int k) + 1" using win(2) by simp
  qed
  then show ?thesis unfolding expW expH quo by simp
qed


lemma round64_160_3: "round64 (160 / 3) = Finite (7505999378950827 / 2 ^ 47)"
  by (rule round64_value [where e = 5 and m = 7505999378950827])
     (simp_all add: roundEven_def power_int_minus)

lemma round64_16_9: "round64 (16 / 9) = Finite (8006399337547548 / 2 ^ 52)"
  by (rule round64_value [where e = 0 and m = 8006399337547548])
     (simp_all add: roundEven_def power_int_minus)

lemma round64_cell_height: "round64 ((7505999378950827 / 2 ^ 47) / (8006399337547548 / 2 ^ 52))
             = Finite (8444249301319681 / 2 ^ 48)"
  by (rule round64_value [where e = 4 and m = 8444249301319681])
     (simp_all add: roundEven_def power_int_minus)

lemma round64_row_quotient: "round64 (45 / (8444249301319681 / 2 ^ 48)) = Finite (6755399441055743 / 2 ^ 52)"
  by (rule round64_value [where e = 0 and m = 6755399441055743])
     (simp_all add: roundEven_def power_int_minus)

text \<open>
  The rounding matters. For a sheet of 160 by 45 pixels, three columns and the frame
  aspect 16:9 the exact quotient is \<open>45 / 30 = 1.5\<close>, which would round to 2 rows; the
  computed cell height is \<open>30 + 2 ^ -48\<close>, the computed quotient is \<open>1.5 - 2 ^ -52\<close>,
  and one row is detected.
\<close>

lemma rounding_example:
  "sliceGeometry 160 45
      \<lparr>numFrames = 6, outputW = 128, outputH = 72, cols = 3, rows = 2,
       frameAR = divide64 (Finite 16) (Finite 9)\<rparr>
     = ([RowsWarning (Finite 1) 2],
        \<lparr>detectedRows = Finite 1, actualRows = 1, frameW = 53, frameH = 45,
         insetX = 2, insetY = 1\<rparr>)"
proof -
  have a: "divide64 (Finite 16) (Finite 9) = Finite (8006399337547548 / 2 ^ 52)"
    using round64_16_9 by simp
  have w: "divide64 (Finite (real (160::nat))) (Finite (real (3::nat)))
             = Finite (7505999378950827 / 2 ^ 47)"
    using round64_160_3 by simp
  have e: "divide64 (Finite (7505999378950827 / 2 ^ 47)) (Finite (8006399337547548 / 2 ^ 52))
             = Finite (8444249301319681 / 2 ^ 48)"
    using round64_cell_height by simp
  have q: "divide64 (Finite (real (45::nat))) (Finite (8444249301319681 / 2 ^ 48))
             = Finite (6755399441055743 / 2 ^ 52)"
    using round64_row_quotient by simp
  have d: "mathRound64 (Finite (6755399441055743 / 2 ^ 52)) = Finite 1"
    by (simp add: mathRound_def)
  show ?thesis
    unfolding sliceGeometry_def Let_def a
    by (simp only: GenerateOpts.simps w e q d) (simp add: mathRound_def)
qed


text \<open>
  C5. For every provider image the slicer computes
  \<open>detectedRows = round(imgH / ((imgW / cols) / frameAR))\<close>, each of the three quotients
  being a binary64 quotient. When this is the requested number of rows, no warning is
  logged (in either variant) and the requested rows are kept. Otherwise the rows warning
  is logged. In both cases a detected row count \<open>d\<close> is the bound of the row loop, gives
  the cell height \<open>floor(imgH / d)\<close> and the inset taken from it, and a completed run has
  \<open>min(numFrames, d * cols)\<close> frames, frame \<open>i\<close> being cut from row \<open>i div cols\<close> at that
  cell height. An image whose height is within a quarter of a cell of \<open>k\<close> expected cell
  heights has \<open>detectedRows = k\<close>, in particular for \<open>k = rows + 1\<close>.
\<close>

theorem drift_detection:
  assumes "g = snd (sliceGeometry imgW imgH opts)"
  shows "detectedRows g
           = mathRound64 (divide64 (Finite (real imgH))
               (divide64 (divide64 (Finite (real imgW)) (Finite (real (GenerateOpts.cols opts))))
                  (frameAR opts)))
     \<and> (detectedRows g = Finite (real (GenerateOpts.rows opts)) \<longrightarrow>
          fst (sliceFrames imgW imgH opts) = []
          \<and> fst (legacyFrames trimSize imgW imgH opts) = []
          \<and> actualRows g = int (GenerateOpts.rows opts))
     \<and> (detectedRows g \<noteq> Finite (real (GenerateOpts.rows opts)) \<longrightarrow>
          fst (sliceFrames imgW imgH opts)
            = [RowsWarning (detectedRows g) (GenerateOpts.rows opts)]
          \<and> fst (legacyFrames trimSize imgW imgH opts)
            = [RowsWarning (detectedRows g) (GenerateOpts.rows opts)])
     \<and> (\<forall>d::nat. detectedRows g = Finite (real d) \<longrightarrow>
          actualRows g = int d
          \<and> (0 < d \<longrightarrow> frameH g = \<lfloor>real imgH / real d\<rfloor>
                \<and> insetY g = max 1 (mathRound (real_of_int \<lfloor>real imgH / real d\<rfloor> * 0.03)))
          \<and> (\<forall>ws frames. sliceFrames imgW imgH opts = (ws, Inr frames) \<longrightarrow>
                length frames = min (numFrames opts) (d * GenerateOpts.cols opts)
                \<and> (\<forall>i < length frames.
                      frames ! i = \<lparr>bufWidth = outputW opts, bufHeight = outputH opts,
                        origin = Resize cover (SheetRegion
                          (int (i mod GenerateOpts.cols opts) * frameW g + insetX g)
                          (int (i div GenerateOpts.cols opts) * \<lfloor>real imgH / real d\<rfloor> + insetY g)
                          (frameW g - insetX g * 2)
                          (\<lfloor>real imgH / real d\<rfloor> - insetY g * 2))\<rparr>))
          \<and> (\<forall>ws frames. legacyFrames trimSize imgW imgH opts = (ws, Inr frames) \<longrightarrow>
                length frames = min (numFrames opts) (d * GenerateOpts.cols opts)
                \<and> (\<forall>i < length frames. \<exists>w h l t.
                      origin (frames ! i)
                        = Resize contain (Canvas w h (RGBA 255 255 255 1) (Trim (SheetRegion
                            (int (i mod GenerateOpts.cols opts) * frameW g + insetX g)
                            (int (i div GenerateOpts.cols opts) * \<lfloor>real imgH / real d\<rfloor> + insetY g)
                            (frameW g - insetX g * 2)
                            (\<lfloor>real imgH / real d\<rfloor> - insetY g * 2))) l t))))
     \<and> (\<forall>(k::nat) a. frameAR opts = Finite a
            \<and> 0 < imgW \<and> imgW \<le> 2 ^ 31
            \<and> 0 < GenerateOpts.cols opts \<and> GenerateOpts.cols opts \<le> 2 ^ 31
            \<and> 1 / 2 ^ 32 \<le> a \<and> a \<le> 2 ^ 32 \<and> 0 < k \<and> k \<le> 2 ^ 31
            \<and> \<bar>real imgH - real k * ((real imgW / real (GenerateOpts.cols opts)) / a)\<bar>
                 \<le> ((real imgW / real (GenerateOpts.cols opts)) / a) / 4
          \<longrightarrow> detectedRows g = Finite (real k))"
proof -
  let ?C = "GenerateOpts.cols opts"
  let ?R = "GenerateOpts.rows opts"
  define dr where "dr = mathRound64 (divide64 (Finite (real imgH))
                 (divide64 (divide64 (Finite (real imgW)) (Finite (real ?C))) (frameAR opts)))"
  define ar where "ar = (if dr \<noteq> Finite (real ?R)
              then (case dr of Finite x \<Rightarrow> \<lfloor>x\<rfloor> | _ \<Rightarrow> 0) else int ?R)"
  define fH where "fH = (if ar = 0 then 0 else \<lfloor>real imgH / real_of_int ar\<rfloor>)"
  note geo = sliceGeometry_cases [OF dr_def ar_def fH_def]
  have gd: "detectedRows g = dr" and ga: "actualRows g = ar" and gh: "frameH g = fH"
    and gi: "insetY g = max 1 (mathRound (real_of_int fH * 0.03))"
    unfolding assms geo by simp_all
  have ws: "fst (sliceGeometry imgW imgH opts)
              = (if dr \<noteq> Finite (real ?R) then [RowsWarning dr ?R] else [])"
    unfolding geo by simp
  have det: "detectedRows g
           = mathRound64 (divide64 (Finite (real imgH))
               (divide64 (divide64 (Finite (real imgW)) (Finite (real ?C))) (frameAR opts)))"
    unfolding gd dr_def ..
  have same: "detectedRows g = Finite (real ?R) \<longrightarrow>
          fst (sliceFrames imgW imgH opts) = []
          \<and> fst (legacyFrames trimSize imgW imgH opts) = []
          \<and> actualRows g = int ?R"
    unfolding sliceFrames_warnings legacyFrames_warnings ws gd ga ar_def by simp
  have drift: "detectedRows g \<noteq> Finite (real ?R) \<longrightarrow>
          fst (sliceFrames imgW imgH opts) = [RowsWarning (detectedRows g) ?R]
          \<and> fst (legacyFrames trimSize imgW imgH opts) = [RowsWarning (detectedRows g) ?R]"
    unfolding sliceFrames_warnings legacyFrames_warnings ws gd by simp
  have used: "actualRows g = int d
          \<and> (0 < d \<longrightarrow> frameH g = \<lfloor>real imgH / real d\<rfloor>
                \<and> insetY g = max 1 (mathRound (real_of_int \<lfloor>real imgH / real d\<rfloor> * 0.03)))
          \<and> (\<forall>ws frames. sliceFrames imgW imgH opts = (ws, Inr frames) \<longrightarrow>
                length frames = min (numFrames opts) (d * ?C)
                \<and> (\<forall>i < length frames.
                      frames ! i = \<lparr>bufWidth = outputW opts, bufHeight = outputH opts,
                        origin = Resize cover (SheetRegion
                          (int (i mod ?C) * frameW g + insetX g)
                          (int (i div ?C) * \<lfloor>real imgH / real d\<rfloor> + insetY g)
                          (frameW g - insetX g * 2)
                          (\<lfloor>real imgH / real d\<rfloor> - insetY g * 2))\<rparr>))
          \<and> (\<forall>ws frames. legacyFrames trimSize imgW imgH opts = (ws, Inr frames) \<longrightarrow>
                length frames = min (numFrames opts) (d * ?C)
                \<and> (\<forall>i < length frames. \<exists>w h l t.
                      origin (frames ! i)
                        = Resize contain (Canvas w h (RGBA 255 255 255 1) (Trim (SheetRegion
                            (int (i mod ?C) * frameW g + insetX g)
                            (int (i div ?C) * \<lfloor>real imgH / real d\<rfloor> + insetY g)
                            (frameW g - insetX g * 2)
                            (\<lfloor>real imgH / real d\<rfloor> - insetY g * 2))) l t)))"
    if dd: "detectedRows g = Finite (real d)" for d :: nat
  proof -
    from dd have drd: "dr = Finite (real d)" by (simp only: gd)
    have ard: "ar = int d"
    proof (cases "dr = Finite (real ?R)")
      case True
      with drd have "?R = d" by simp
      with True show ?thesis unfolding ar_def by simp
    next
      case False
      then show ?thesis unfolding ar_def drd by simp
    qed
    have a: "actualRows g = int d" unfolding ga by (rule ard)
    have fh: "frameH g = \<lfloor>real imgH / real d\<rfloor>" if "0 < d"
      unfolding gh fH_def ard using that by simp
    have iy: "insetY g = max 1 (mathRound (real_of_int \<lfloor>real imgH / real d\<rfloor> * 0.03))"
      if "0 < d"
      unfolding gi using fh [OF that] gh by simp
    have reg: "regionSource (cellRegion g (i div ?C) (i mod ?C))
                 = SheetRegion (int (i mod ?C) * frameW g + insetX g)
                     (int (i div ?C) * \<lfloor>real imgH / real d\<rfloor> + insetY g)
                     (frameW g - insetX g * 2) (\<lfloor>real imgH / real d\<rfloor> - insetY g * 2)"
      if "0 < d" for i
      by (simp add: regionSource_def cellRegion_def fh [OF that])
    have pos: "0 < d" if "length frames = min (numFrames opts) (d * ?C)" and "i < length frames"
      for frames :: "buffer list" and i
      using that by (cases d) simp_all
    have new: "length frames = min (numFrames opts) (d * ?C)
                \<and> (\<forall>i < length frames.
                      frames ! i = \<lparr>bufWidth = outputW opts, bufHeight = outputH opts,
                        origin = Resize cover (SheetRegion
                          (int (i mod ?C) * frameW g + insetX g)
                          (int (i div ?C) * \<lfloor>real imgH / real d\<rfloor> + insetY g)
                          (frameW g - insetX g * 2)
                          (\<lfloor>real imgH / real d\<rfloor> - insetY g * 2))\<rparr>)"
      if run: "sliceFrames imgW imgH opts = (ws, Inr frames)" for ws frames
    proof -
      have len: "length frames = min (numFrames opts) (d * ?C)"
        using sliceFrames_Inr(1) [OF run assms] unfolding a by simp
      have "frames ! i = \<lparr>bufWidth = outputW opts, bufHeight = outputH opts,
                        origin = Resize cover (SheetRegion
                          (int (i mod ?C) * frameW g + insetX g)
                          (int (i div ?C) * \<lfloor>real imgH / real d\<rfloor> + insetY g)
                          (frameW g - insetX g * 2)
                          (\<lfloor>real imgH / real d\<rfloor> - insetY g * 2))\<rparr>"
        if i: "i < length frames" for i
        using sliceFrames_Inr(2) [OF run assms i] unfolding reg [OF pos [OF len i]] .
      with len show ?thesis by blast
    qed
    have old: "length frames = min (numFrames opts) (d * ?C)
                \<and> (\<forall>i < length frames. \<exists>w h l t.
                      origin (frames ! i)
                        = Resize contain (Canvas w h (RGBA 255 255 255 1) (Trim (SheetRegion
                            (int (i mod ?C) * frameW g + insetX g)
                            (int (i div ?C) * \<lfloor>real imgH / real d\<rfloor> + insetY g)
                            (frameW g - insetX g * 2)
                            (\<lfloor>real imgH / real d\<rfloor> - insetY g * 2))) l t))"
      if run: "legacyFrames trimSize imgW imgH opts = (ws, Inr frames)" for ws frames
    proof -
      have len: "length frames = min (numFrames opts) (d * ?C)"
        using legacyFrames_length [OF run assms] unfolding a by simp
      have "\<exists>w h l t. origin (frames ! i)
                        = Resize contain (Canvas w h (RGBA 255 255 255 1) (Trim (SheetRegion
                            (int (i mod ?C) * frameW g + insetX g)
                            (int (i div ?C) * \<lfloor>real imgH / real d\<rfloor> + insetY g)
                            (frameW g - insetX g * 2)
                            (\<lfloor>real imgH / real d\<rfloor> - insetY g * 2))) l t)"
        if i: "i < length frames" for i
        using legacyFrames_nth [OF run assms i] unfolding reg [OF pos [OF len i]] by blast
      with len show ?thesis by blast
    qed
    from a fh iy new old show ?thesis by blast
  qed
  have exact: "detectedRows g = Finite (real k)"
    if "frameAR opts = Finite a
            \<and> 0 < imgW \<and> imgW \<le> 2 ^ 31 \<and> 0 < ?C \<and> ?C \<le> 2 ^ 31
            \<and> 1 / 2 ^ 32 \<le> a \<and> a \<le> 2 ^ 32 \<and> 0 < k \<and> k \<le> 2 ^ 31
            \<and> \<bar>real imgH - real k * ((real imgW / real ?C) / a)\<bar>
                 \<le> ((real imgW / real ?C) / a) / 4"
    for k :: nat and a
  proof -
    from that have fa: "frameAR opts = Finite a" by (rule conjunct1)
    from that have h: "0 < imgW" "imgW \<le> 2 ^ 31" "0 < ?C" "?C \<le> 2 ^ 31"
        "1 / 2 ^ 32 \<le> a" "a \<le> 2 ^ 32" "0 < k" "k \<le> 2 ^ 31"
        "\<bar>real imgH - real k * ((real imgW / real ?C) / a)\<bar> \<le> ((real imgW / real ?C) / a) / 4"
      by blast+
    show ?thesis unfolding det fa by (rule drift_rows [OF h])
  qed
  from det same drift used exact show ?thesis by blast
qed

theorem drift_detection_witness:
  "detectedRows (snd (sliceGeometry 256 384
      \<lparr>numFrames = 4, outputW = 128, outputH = 128, cols = 2, rows = 2, frameAR = Finite 1\<rparr>))
     = Finite 3
   \<and> actualRows (snd (sliceGeometry 256 384
      \<lparr>numFrames = 4, outputW = 128, outputH = 128, cols = 2, rows = 2, frameAR = Finite 1\<rparr>)) = 3
   \<and> frameH (snd (sliceGeometry 256 384
      \<lparr>numFrames = 4, outputW = 128, outputH = 128, cols = 2, rows = 2, frameAR = Finite 1\<rparr>)) = 128
   \<and> fst (sliceFrames 256 384
      \<lparr>numFrames = 4, outputW = 128, outputH = 128, cols = 2, rows = 2, frameAR = Finite 1\<rparr>)
       = [RowsWarning (Finite 3) 2]
   \<and> fst (legacyFrames (\<lambda>cell. (bufWidth cell, bufHeight cell)) 256 384
      \<lparr>numFrames = 4, outputW = 128, outputH = 128, cols = 2, rows = 2, frameAR = Finite 1\<rparr>)
       = [RowsWarning (Finite 3) 2]
   \<and> warningText (RowsWarning (Finite 3) 2) = ''Warning: detected 3 rows (expected 2), adjusting''"
proof -
  let ?opts = "\<lparr>numFrames = 4, outputW = 128, outputH = 128, cols = 2, rows = 2,
                 frameAR = Finite 1\<rparr>"
  let ?g = "snd (sliceGeometry 256 384 ?opts)"
  let ?ts = "\<lambda>cell. (bufWidth cell, bufHeight cell)"
  note main = drift_detection [OF refl, where imgW = 256 and imgH = 384 and opts = ?opts
      and trimSize = ?ts]
  have tall: "frameAR ?opts = Finite 1
            \<and> (0::nat) < 256 \<and> (256::nat) \<le> 2 ^ 31
            \<and> 0 < GenerateOpts.cols ?opts \<and> GenerateOpts.cols ?opts \<le> 2 ^ 31
            \<and> 1 / 2 ^ 32 \<le> (1::real) \<and> (1::real) \<le> 2 ^ 32 \<and> (0::nat) < 3 \<and> (3::nat) \<le> 2 ^ 31
            \<and> \<bar>real (384::nat) - real (3::nat) * ((real (256::nat) / real (GenerateOpts.cols ?opts)) / 1)\<bar>
                 \<le> ((real (256::nat) / real (GenerateOpts.cols ?opts)) / 1) / 4"
    by simp
  from main tall have d: "detectedRows ?g = Finite (real (3::nat))" by blast
  then have ne: "detectedRows ?g \<noteq> Finite (real (GenerateOpts.rows ?opts))" by simp
  from main ne have w: "fst (sliceFrames 256 384 ?opts)
                          = [RowsWarning (detectedRows ?g) (GenerateOpts.rows ?opts)]"
    and w': "fst (legacyFrames ?ts 256 384 ?opts)
                          = [RowsWarning (detectedRows ?g) (GenerateOpts.rows ?opts)]"
    by blast+
  from main d have a: "actualRows ?g = int 3"
    and fh: "0 < (3::nat) \<longrightarrow> frameH ?g = \<lfloor>real (384::nat) / real (3::nat)\<rfloor>"
    by blast+
  have d3: "detectedRows ?g = Finite 3" using d by simp
  have a3: "actualRows ?g = 3" using a by simp
  have f3: "frameH ?g = 128" using fh by simp
  have w3: "fst (sliceFrames 256 384 ?opts) = [RowsWarning (Finite 3) 2]"
    unfolding w d3 by simp
  have w3': "fst (legacyFrames ?ts 256 384 ?opts) = [RowsWarning (Finite 3) 2]"
    unfolding w' d3 by simp
  have msg: "warningText (RowsWarning (Finite 3) 2)
               = ''Warning: detected 3 rows (expected 2), adjusting''"
    by code_simp
  from d3 a3 f3 w3 w3' msg show ?thesis by (intro conjI)
qed

subsection \<open>Re-centring on the shared canvas\<close>

lemma index_image:
  assumes "length xs = n" and "\<forall>i < n. xs ! i = f i"
  shows "set (map h xs) = (\<lambda>i. h (f i)) ` {..< n}"
proof -
  have "xs = map f [0 ..< n]"
    using assms by (intro nth_equalityI) simp_all
  then have "set (map h xs) = set (map (\<lambda>i. h (f i)) [0 ..< n])" by simp
  also have "\<dots> = (\<lambda>i. h (f i)) ` {..< n}" by (simp add: atLeast0LessThan)
  finally show ?thesis .
qed

lemma canvas_size:
  assumes "b = \<lparr>bufWidth = w, bufHeight = h,
                origin = Resize f (Canvas cw ch bg src l t)\<rparr>"
    and "origin b = Resize f' (Canvas cw' ch' bg' src' l' t')"
  shows "cw = cw' \<and> ch = ch' \<and> l = l' \<and> t = t'"
  using assms by simp

text \<open>
  C6. In a run of the older variant that completes with at least one frame, let \<open>raw i\<close>
  be the cell extracted for frame \<open>i\<close> and let the trimmed size of a cell be what
  \<^verbatim>\<open>trim\<close> reports for it. The shared canvas has the maximum of the trimmed widths as its
  width and the maximum of the trimmed heights as its height, and its background is
  opaque white (\<open>r = g = b = 255\<close>, \<open>alpha = 1\<close>). Frame \<open>i\<close> is the trimmed cell \<open>i\<close>
  composited on that canvas at the offsets \<open>round((canvasW - w) / 2)\<close> and
  \<open>round((canvasH - h) / 2)\<close>, then resized to the output size; with these offsets the
  cell lies inside the canvas.
\<close>

theorem reconciler_centering:
  assumes "legacyFrames trimSize imgW imgH opts = (warns, Inr frames)"
    and "frames \<noteq> []"
    and "g = snd (sliceGeometry imgW imgH opts)"
    and "raw = (\<lambda>i. extracted
           (cellRegion g (i div GenerateOpts.cols opts) (i mod GenerateOpts.cols opts)))"
    and "canvasW = Max ((\<lambda>i. fst (trimSize (raw i))) ` {..< length frames})"
    and "canvasH = Max ((\<lambda>i. snd (trimSize (raw i))) ` {..< length frames})"
  shows "\<forall>i < length frames.
           frames ! i
             = \<lparr>bufWidth = outputW opts, bufHeight = outputH opts,
                origin = Resize contain
                  (Canvas canvasW canvasH (RGBA 255 255 255 1) (Trim (origin (raw i)))
                     (mathRound ((real canvasW - real (fst (trimSize (raw i)))) / 2))
                     (mathRound ((real canvasH - real (snd (trimSize (raw i)))) / 2)))\<rparr>
           \<and> 0 \<le> mathRound ((real canvasW - real (fst (trimSize (raw i)))) / 2)
           \<and> mathRound ((real canvasW - real (fst (trimSize (raw i)))) / 2)
                 + int (fst (trimSize (raw i))) \<le> int canvasW
           \<and> 0 \<le> mathRound ((real canvasH - real (snd (trimSize (raw i)))) / 2)
           \<and> mathRound ((real canvasH - real (snd (trimSize (raw i)))) / 2)
                 + int (snd (trimSize (raw i))) \<le> int canvasH"
proof -
  let ?init = "\<lparr>trimmed = [], maxTrimW = 0, maxTrimH = 0\<rparr>"
  from legacyFrames_Inr [OF assms(1,3)] obtain raws where
      len: "length raws = length frames"
      and rawi: "\<forall>i < length frames. raws ! i = raw i"
      and fr: "frames = map (\<lambda>raw. \<lparr>bufWidth = outputW opts, bufHeight = outputH opts,
           origin = Resize contain (origin (composited
              (maxTrimW (trimLoop trimSize raws ?init)) (maxTrimH (trimLoop trimSize raws ?init))
              \<lparr>data = sharpTrim trimSize raw, trimmedCell.width = fst (trimSize raw),
               trimmedCell.height = snd (trimSize raw)\<rparr>))\<rparr>) raws"
    unfolding assms(4) by blast
  define st where "st = trimLoop trimSize raws ?init"
  have ne: "raws \<noteq> []" using assms(2) len by auto
  note mw = trimLoop_maxW [of ?init trimSize raws, folded st_def]
  note mh = trimLoop_maxH [of ?init trimSize raws, folded st_def]
  have wle: "\<forall>r \<in> set raws. fst (trimSize r) \<le> maxTrimW st" using mw by blast
  have hle: "\<forall>r \<in> set raws. snd (trimSize r) \<le> maxTrimH st" using mh by blast
  have wat: "maxTrimW st = 0 \<or> (\<exists>r \<in> set raws. maxTrimW st = fst (trimSize r))"
    using mw by simp
  have hat: "maxTrimH st = 0 \<or> (\<exists>r \<in> set raws. maxTrimH st = snd (trimSize r))"
    using mh by simp
  have "maxTrimW st = Max (set (map (\<lambda>r. fst (trimSize r)) raws))"
    using ne wle wat by (rule Max_of_bound)
  also have "\<dots> = canvasW"
    unfolding assms(5) by (simp only: index_image [OF len rawi])
  finally have cw: "maxTrimW st = canvasW" .
  have "maxTrimH st = Max (set (map (\<lambda>r. snd (trimSize r)) raws))"
    using ne hle hat by (rule Max_of_bound)
  also have "\<dots> = canvasH"
    unfolding assms(6) by (simp only: index_image [OF len rawi])
  finally have ch: "maxTrimH st = canvasH" .
  show ?thesis
  proof (intro allI impI)
    fix i
    assume i: "i < length frames"
    then have ir: "i < length raws" by (simp only: len)
    from rawi i have r: "raws ! i = raw i" by blast
    from ir have mem: "raws ! i \<in> set raws" by (rule nth_mem)
    have w: "fst (trimSize (raw i)) \<le> canvasW" using wle mem unfolding r cw by blast
    have h: "snd (trimSize (raw i)) \<le> canvasH" using hle mem unfolding r ch by blast
    have "frames ! i = \<lparr>bufWidth = outputW opts, bufHeight = outputH opts,
           origin = Resize contain (origin (composited (maxTrimW st) (maxTrimH st)
              \<lparr>data = sharpTrim trimSize (raws ! i),
               trimmedCell.width = fst (trimSize (raws ! i)),
               trimmedCell.height = snd (trimSize (raws ! i))\<rparr>))\<rparr>"
      unfolding st_def by (subst fr) (simp add: ir)
    then have f: "frames ! i
             = \<lparr>bufWidth = outputW opts, bufHeight = outputH opts,
                origin = Resize contain
                  (Canvas canvasW canvasH (RGBA 255 255 255 1) (Trim (origin (raw i)))
                     (mathRound ((real canvasW - real (fst (trimSize (raw i)))) / 2))
                     (mathRound ((real canvasH - real (snd (trimSize (raw i)))) / 2)))\<rparr>"
      unfolding r cw ch by (simp add: composited_def sharpTrim_def)
    from f center_bounds [OF w] center_bounds [OF h]
    show "frames ! i
             = \<lparr>bufWidth = outputW opts, bufHeight = outputH opts,
                origin = Resize contain
                  (Canvas canvasW canvasH (RGBA 255 255 255 1) (Trim (origin (raw i)))
                     (mathRound ((real canvasW - real (fst (trimSize (raw i)))) / 2))
                     (mathRound ((real canvasH - real (snd (trimSize (raw i)))) / 2)))\<rparr>
           \<and> 0 \<le> mathRound ((real canvasW - real (fst (trimSize (raw i)))) / 2)
           \<and> mathRound ((real canvasW - real (fst (trimSize (raw i)))) / 2)
                 + int (fst (trimSize (raw i))) \<le> int canvasW
           \<and> 0 \<le> mathRound ((real canvasH - real (snd (trimSize (raw i)))) / 2)
           \<and> mathRound ((real canvasH - real (snd (trimSize (raw i)))) / 2)
                 + int (snd (trimSize (raw i))) \<le> int canvasH"
      by (intro conjI)
  qed
qed

lemma sliceGeometry_64_32:
  "sliceGeometry 64 32
      \<lparr>numFrames = 2, outputW = 128, outputH = 128, cols = 2, rows = 1, frameAR = Finite 1\<rparr>
     = ([], \<lparr>detectedRows = Finite 1, actualRows = 1, frameW = 32, frameH = 32,
             insetX = 1, insetY = 1\<rparr>)"
  by (simp add: sliceGeometry_def mathRound_def Let_def round64_numeral round64_one)

theorem reconciler_centering_witness:
  "legacyFrames (\<lambda>cell. if origin cell = SheetRegion 1 1 30 30 then (10, 10) else (20, 20))
      64 32 \<lparr>numFrames = 2, outputW = 128, outputH = 128, cols = 2, rows = 1, frameAR = Finite 1\<rparr>
     = ([], Inr [\<lparr>bufWidth = 128, bufHeight = 128,
                  origin = Resize contain (Canvas 20 20 (RGBA 255 255 255 1)
                             (Trim (SheetRegion 1 1 30 30)) 5 5)\<rparr>,
                 \<lparr>bufWidth = 128, bufHeight = 128,
                  origin = Resize contain (Canvas 20 20 (RGBA 255 255 255 1)
                             (Trim (SheetRegion 33 1 30 30)) 0 0)\<rparr>])
   \<and> Max ((\<lambda>i. fst ((\<lambda>cell. if origin cell = SheetRegion 1 1 30 30 then (10, 10)
                             else (20::nat, 20::nat))
              (extracted (cellRegion (snd (sliceGeometry 64 32
                 \<lparr>numFrames = 2, outputW = 128, outputH = 128, cols = 2, rows = 1,
                  frameAR = Finite 1\<rparr>)) (i div 2) (i mod 2))))) ` {..< 2}) = (20::nat)
   \<and> mathRound ((real (20::nat) - real (10::nat)) / 2) = 5"
proof -
  let ?ts = "\<lambda>cell. if origin cell = SheetRegion 1 1 30 30 then (10, 10) else (20::nat, 20::nat)"
  let ?opts = "\<lparr>numFrames = 2, outputW = 128, outputH = 128, cols = 2, rows = 1,
                 frameAR = Finite 1\<rparr>"
  let ?g = "\<lparr>detectedRows = Finite 1, actualRows = 1, frameW = 32, frameH = 32,
             insetX = 1, insetY = 1\<rparr>"
  let ?f1 = "\<lparr>bufWidth = 128, bufHeight = 128,
                  origin = Resize contain (Canvas 20 20 (RGBA 255 255 255 1)
                             (Trim (SheetRegion 1 1 30 30)) 5 5)\<rparr>"
  let ?f2 = "\<lparr>bufWidth = 128, bufHeight = 128,
                  origin = Resize contain (Canvas 20 20 (RGBA 255 255 255 1)
                             (Trim (SheetRegion 33 1 30 30)) 0 0)\<rparr>"
  have raws: "rowLoop (rawCell 64 32 ?g) ?opts 1 0 []
                = Inr [\<lparr>bufWidth = 30, bufHeight = 30, origin = SheetRegion 1 1 30 30\<rparr>,
                       \<lparr>bufWidth = 30, bufHeight = 30, origin = SheetRegion 33 1 30 30\<rparr>]"
    by (simp add: rowLoop.simps colLoop.simps rawCell_def cellRegion_def sharpExtract_def)
  have run: "legacyFrames ?ts 64 32 ?opts = ([], Inr [?f1, ?f2])"
    unfolding legacyFrames_def sliceGeometry_64_32
    by (simp add: extractLoops_def raws Let_def sharpTrim_def composited_def sharpResize_def
          mathRound_def del: One_nat_def)
  have ne: "[?f1, ?f2] \<noteq> []" by simp
  have i0: "0 < length [?f1, ?f2]" by simp
  note first = reconciler_centering [OF run ne refl refl refl refl, rule_format, OF i0,
      THEN conjunct1]
  have "origin ([?f1, ?f2] ! 0)
          = Resize contain (Canvas 20 20 (RGBA 255 255 255 1) (Trim (SheetRegion 1 1 30 30)) 5 5)"
    by simp
  from canvas_size [OF first this]
  have "Max ((\<lambda>i. fst (?ts (extracted (cellRegion (snd (sliceGeometry 64 32 ?opts))
                      (i div GenerateOpts.cols ?opts) (i mod GenerateOpts.cols ?opts)))))
                    ` {..< length [?f1, ?f2]}) = 20"
    by (rule conjunct1)
  then have mx: "Max ((\<lambda>i. fst (?ts (extracted (cellRegion (snd (sliceGeometry 64 32 ?opts))
                      (i div 2) (i mod 2))))) ` {..< 2}) = (20::nat)"
    by (simp add: numeral_2_eq_2)
  have off: "mathRound ((real (20::nat) - real (10::nat)) / 2) = 5"
    by (simp add: mathRound_def)
  from run mx off show ?thesis by (intro conjI)
qed

subsection \<open>Aspect negotiation\<close>












subsection \<open>A frame aspect near the overflow threshold\<close>

























end
